theory Spec2Isabelle
  imports Complex_Main "HOL-Library.Char_ord" "HOL-Library.Sublist"
begin

section \<open>Python strings\<close>

text \<open>
  A Python \<open>str\<close> is a sequence of code points and \<open>len\<close> counts code points. It is
  modelled as \<^typ>\<open>string\<close>, where a \<^typ>\<open>char\<close> stands for the code point of the same
  number, so the texts of the model are the texts over the code points 0 to 255.
  The character predicates below are Python's on that range: \<open>str.isspace\<close> (also what
  \<open>strip()\<close>, \<open>split()\<close> and the pattern \<open>\s\<close> use), \<open>str.isdecimal\<close> (the pattern
  \<open>\d\<close>), \<open>str.isdigit\<close>, \<open>str.isalnum\<close> (the pattern \<open>\w\<close>, with the underscore)
  and \<open>str.lower\<close>.
\<close>

definition in_range :: "char \<Rightarrow> char \<Rightarrow> char \<Rightarrow> bool" where
  "in_range lo hi c \<longleftrightarrow> lo \<le> c \<and> c \<le> hi"

definition py_isspace_char :: "char \<Rightarrow> bool" where
  "py_isspace_char c \<longleftrightarrow>
     in_range (CHR 0x09) (CHR 0x0D) c \<or> in_range (CHR 0x1C) (CHR 0x20) c \<or>
     c = CHR 0x85 \<or> c = CHR 0xA0"

definition py_isdecimal_char :: "char \<Rightarrow> bool" where
  "py_isdecimal_char c \<longleftrightarrow> in_range (CHR ''0'') (CHR ''9'') c"

definition py_isdigit_char :: "char \<Rightarrow> bool" where
  "py_isdigit_char c \<longleftrightarrow>
     py_isdecimal_char c \<or> c = CHR 0xB2 \<or> c = CHR 0xB3 \<or> c = CHR 0xB9"

definition is_ascii_letter :: "char \<Rightarrow> bool" where
  "is_ascii_letter c \<longleftrightarrow>
     in_range (CHR ''a'') (CHR ''z'') c \<or> in_range (CHR ''A'') (CHR ''Z'') c"

definition py_isalnum_char :: "char \<Rightarrow> bool" where
  "py_isalnum_char c \<longleftrightarrow>
     is_ascii_letter c \<or> py_isdigit_char c \<or>
     c = CHR 0xAA \<or> c = CHR 0xB5 \<or> c = CHR 0xBA \<or>
     in_range (CHR 0xBC) (CHR 0xBE) c \<or> in_range (CHR 0xC0) (CHR 0xD6) c \<or>
     in_range (CHR 0xD8) (CHR 0xF6) c \<or> in_range (CHR 0xF8) (CHR 0xFF) c"

definition is_word_char :: "char \<Rightarrow> bool" where
  "is_word_char c \<longleftrightarrow> py_isalnum_char c \<or> c = CHR ''_''"

definition py_lower_char :: "char \<Rightarrow> char" where
  "py_lower_char c =
     (if in_range (CHR ''A'') (CHR ''Z'') c \<or> in_range (CHR 0xC0) (CHR 0xD6) c \<or>
         in_range (CHR 0xD8) (CHR 0xDE) c
      then char_of (of_char c + (32::nat)) else c)"

text \<open>
  The upper-case partner of a character, as the case-insensitive matching of \<open>re\<close> uses it.
  The partners of code points 0xB5 and 0xFF lie beyond 0xFF and in no character class of
  the patterns of this program; both are left as they are.
\<close>

definition py_upper_char :: "char \<Rightarrow> char" where
  "py_upper_char c =
     (if in_range (CHR ''a'') (CHR ''z'') c \<or> in_range (CHR 0xE0) (CHR 0xF6) c \<or>
         in_range (CHR 0xF8) (CHR 0xFE) c
      then char_of (of_char c - (32::nat)) else c)"

definition py_lower :: "string \<Rightarrow> string" where
  "py_lower s = map py_lower_char s"

definition py_strip :: "string \<Rightarrow> string" where
  "py_strip s = rev (dropWhile py_isspace_char (rev (dropWhile py_isspace_char s)))"

definition py_isdigit :: "string \<Rightarrow> bool" where
  "py_isdigit s \<longleftrightarrow> s \<noteq> [] \<and> list_all py_isdigit_char s"

definition py_startswith :: "string \<Rightarrow> string \<Rightarrow> bool" where
  "py_startswith s p \<longleftrightarrow> prefix p s"

text \<open>
  \<open>s.split(sep)\<close> for a separator that is not empty: the text is cut at the
  occurrences of \<open>sep\<close> found from left to right, none overlapping another; the result
  has one more piece than there are cuts. Every call in the program passes a literal
  separator (\<open>'\n'\<close>, \<open>'\n\n'\<close>, \<open>'. '\<close>). \<open>cur\<close> holds the piece being read, reversed.
\<close>

function split_from :: "string \<Rightarrow> string \<Rightarrow> string \<Rightarrow> string list" where
  "split_from sep cur s =
     (if s = [] then [rev cur]
      else if sep \<noteq> [] \<and> prefix sep s then rev cur # split_from sep [] (drop (length sep) s)
      else split_from sep (hd s # cur) (tl s))"
  by pat_completeness auto
termination
  by (relation "measure (\<lambda>(sep, cur, s). length s)") auto

definition py_split :: "string \<Rightarrow> string \<Rightarrow> string list" where
  "py_split s sep = split_from sep [] s"

text \<open>\<open>s.split()\<close>: the maximal runs of characters that are not whitespace.\<close>

function py_split_ws :: "string \<Rightarrow> string list" where
  "py_split_ws s =
     (if dropWhile py_isspace_char s = [] then []
      else takeWhile (\<lambda>c. \<not> py_isspace_char c) (dropWhile py_isspace_char s) #
           py_split_ws (dropWhile (\<lambda>c. \<not> py_isspace_char c) (dropWhile py_isspace_char s)))"
  by pat_completeness auto
termination
proof (relation "measure length", goal_cases)
  case 1
  show ?case by simp
next
  case (2 s)
  then obtain c cs where d: "dropWhile py_isspace_char s = c # cs"
    by (cases "dropWhile py_isspace_char s") auto
  have "\<not> py_isspace_char c"
    using d hd_dropWhile [of py_isspace_char s] by auto
  then have "length (dropWhile (\<lambda>c. \<not> py_isspace_char c) (c # cs)) \<le> length cs"
    by (simp add: length_dropWhile_le)
  moreover have "length (c # cs) \<le> length s"
    using length_dropWhile_le [of py_isspace_char s] by (simp add: d)
  ultimately show ?case by (simp add: d)
qed

fun py_join :: "string \<Rightarrow> string list \<Rightarrow> string" where
  "py_join sep [] = []"
| "py_join sep [x] = x"
| "py_join sep (x # y # ys) = x @ sep @ py_join sep (y # ys)"

text \<open>\<open>s[a:b]\<close> for \<open>0 \<le> a\<close> and \<open>0 \<le> b\<close>.\<close>

definition py_slice :: "string \<Rightarrow> nat \<Rightarrow> nat \<Rightarrow> string" where
  "py_slice s a b = take (b - a) (drop a s)"

text \<open>\<open>str(n)\<close> for an integer \<open>n \<ge> 0\<close>, as the f-strings that build identifiers use it.\<close>

definition digit_char :: "nat \<Rightarrow> char" where
  "digit_char d = char_of (of_char (CHR ''0'') + d)"

fun py_str_nat :: "nat \<Rightarrow> string" where
  "py_str_nat n = (if n < 10 then [digit_char n] else py_str_nat (n div 10) @ [digit_char (n mod 10)])"

declare py_str_nat.simps [simp del]

section \<open>The chunker: \<open>_split_text_into_chunks\<close>\<close>

text \<open>
  The state of both loops is the pair of the list \<open>chunks\<close> and the string
  \<open>current_chunk\<close>. \<open>len(s) // 4\<close> is the estimated token count; \<open>max_tokens\<close> is a
  Python integer.
\<close>

definition est_tokens :: "string \<Rightarrow> int" where
  "est_tokens s = int (length s div 4)"

definition sentence_step :: "int \<Rightarrow> string list \<times> string \<Rightarrow> string \<Rightarrow> string list \<times> string" where
  "sentence_step max_tokens st sentence =
     (case st of (chunks, current_chunk) \<Rightarrow>
        if est_tokens (current_chunk @ sentence) > max_tokens then
          if current_chunk \<noteq> [] then (chunks @ [current_chunk], sentence)
          else (chunks @ [sentence], current_chunk)
        else
          (chunks, if current_chunk \<noteq> [] then current_chunk @ ''. '' @ sentence else sentence))"

definition paragraph_step :: "int \<Rightarrow> string list \<times> string \<Rightarrow> string \<Rightarrow> string list \<times> string" where
  "paragraph_step max_tokens st paragraph =
     (case st of (chunks, current_chunk) \<Rightarrow>
        let test_chunk = (if current_chunk \<noteq> [] then current_chunk @ ''\<newline>\<newline>'' @ paragraph
                          else paragraph)
        in if est_tokens test_chunk > max_tokens then
             if current_chunk \<noteq> [] then (chunks @ [current_chunk], paragraph)
             else foldl (sentence_step max_tokens) (chunks, current_chunk) (py_split paragraph ''. '')
           else (chunks, test_chunk))"

definition split_text_into_chunks :: "string \<Rightarrow> int \<Rightarrow> string list" where
  "split_text_into_chunks text max_tokens =
     (if est_tokens text \<le> max_tokens then [text]
      else case foldl (paragraph_step max_tokens) ([], []) (py_split text ''\<newline>\<newline>'') of
             (chunks, current_chunk) \<Rightarrow>
               if current_chunk \<noteq> [] then chunks @ [current_chunk] else chunks)"

section \<open>The regular expressions of the program\<close>

text \<open>
  Every quantifier in the patterns of the program applies to a single character class, and
  no group is nested or repeated. A pattern is therefore a list of items: a repeated
  character class (minimum, optional maximum, greedy or lazy), the two ends of a capturing
  group, and the assertions \<open>^\<close>, \<open>$\<close> and \<open>\b\<close>. The one alternation, in the pattern
  that ends a topic's content, is a list of such patterns.
\<close>

datatype cset = One char | Range char char | WordC | SpaceC | DigitC

datatype atom = In "cset list" | NotIn "cset list" | Dot

datatype item = Rep atom nat "nat option" bool | Open | Close | Bol | Eol | Wordb

type_synonym regex = "item list"

definition lit :: "char \<Rightarrow> item" where
  "lit c = Rep (In [One c]) 1 (Some 1) True"

definition lits :: "string \<Rightarrow> regex" where
  "lits s = map lit s"

definition one :: "atom \<Rightarrow> item" where
  "one a = Rep a 1 (Some 1) True"

definition opt :: "atom \<Rightarrow> item" where
  "opt a = Rep a 0 (Some 1) True"

definition star :: "atom \<Rightarrow> item" where
  "star a = Rep a 0 None True"

definition plus :: "atom \<Rightarrow> item" where
  "plus a = Rep a 1 None True"

definition at_least :: "nat \<Rightarrow> atom \<Rightarrow> item" where
  "at_least n a = Rep a n None True"

definition lazy_star :: "atom \<Rightarrow> item" where
  "lazy_star a = Rep a 0 None False"

fun cset_match :: "cset \<Rightarrow> char \<Rightarrow> bool" where
  "cset_match (One x) c \<longleftrightarrow> c = x"
| "cset_match (Range lo hi) c \<longleftrightarrow> in_range lo hi c"
| "cset_match WordC c \<longleftrightarrow> is_word_char c"
| "cset_match SpaceC c \<longleftrightarrow> py_isspace_char c"
| "cset_match DigitC c \<longleftrightarrow> py_isdecimal_char c"

text \<open>
  Under \<open>re.IGNORECASE\<close> (\<open>ic\<close>) a character is in a class when it or its partner of the
  other case is. Under \<open>re.DOTALL\<close> (\<open>ds\<close>) the dot also matches a newline.
\<close>

definition set_match :: "bool \<Rightarrow> cset list \<Rightarrow> char \<Rightarrow> bool" where
  "set_match ic cs c \<longleftrightarrow>
     list_ex (\<lambda>x. cset_match x c \<or>
                   (ic \<and> (cset_match x (py_lower_char c) \<or> cset_match x (py_upper_char c)))) cs"

fun atom_match :: "bool \<Rightarrow> bool \<Rightarrow> atom \<Rightarrow> char \<Rightarrow> bool" where
  "atom_match ic ds (In cs) c \<longleftrightarrow> set_match ic cs c"
| "atom_match ic ds (NotIn cs) c \<longleftrightarrow> \<not> set_match ic cs c"
| "atom_match ic ds Dot c \<longleftrightarrow> ds \<or> c \<noteq> CHR 0x0A"

text \<open>
  Backtracking over the number of repetitions: a greedy quantifier tries the largest count
  first (\<open>first_down\<close>), a lazy one the smallest (\<open>first_up\<close>); the first count for which
  the rest of the pattern matches wins.
\<close>

fun first_down :: "(nat \<Rightarrow> 'a option) \<Rightarrow> nat \<Rightarrow> nat \<Rightarrow> 'a option" where
  "first_down f lo 0 = (if 0 < lo then None else f 0)"
| "first_down f lo (Suc n) =
     (if Suc n < lo then None
      else case f (Suc n) of Some r \<Rightarrow> Some r | None \<Rightarrow> first_down f lo n)"

function first_up :: "(nat \<Rightarrow> 'a option) \<Rightarrow> nat \<Rightarrow> nat \<Rightarrow> 'a option" where
  "first_up f k n =
     (if n < k then None
      else case f k of Some r \<Rightarrow> Some r | None \<Rightarrow> first_up f (Suc k) n)"
  by pat_completeness auto
termination
  by (relation "measure (\<lambda>(f, k, n). Suc n - k)") auto

definition word_before :: "char option \<Rightarrow> bool" where
  "word_before pv = (case pv of None \<Rightarrow> False | Some c \<Rightarrow> is_word_char c)"

definition word_after :: "string \<Rightarrow> bool" where
  "word_after s = (case s of [] \<Rightarrow> False | c # _ \<Rightarrow> is_word_char c)"

text \<open>
  \<open>rmatch ic ds r pv s p os gs\<close> matches the pattern \<open>r\<close> at offset \<open>p\<close> of the text, where
  \<open>s\<close> is the text from \<open>p\<close> on and \<open>pv\<close> the character before \<open>p\<close>. \<open>os\<close> holds the
  offsets of the groups that are open, \<open>gs\<close> the spans of the groups that are closed. The
  result is the end of the match with the group spans. \<open>^\<close> and \<open>$\<close> are those of a
  pattern without \<open>re.MULTILINE\<close>: no pattern of the program that is compiled with that
  flag has either.
\<close>

fun rmatch :: "bool \<Rightarrow> bool \<Rightarrow> regex \<Rightarrow> char option \<Rightarrow> string \<Rightarrow> nat \<Rightarrow> nat list \<Rightarrow>
    (nat \<times> nat) list \<Rightarrow> (nat \<times> (nat \<times> nat) list) option" where
  "rmatch ic ds [] pv s p os gs = Some (p, gs)"
| "rmatch ic ds (Open # r) pv s p os gs = rmatch ic ds r pv s p (p # os) gs"
| "rmatch ic ds (Close # r) pv s p os gs =
     (case os of [] \<Rightarrow> None | q # os' \<Rightarrow> rmatch ic ds r pv s p os' (gs @ [(q, p)]))"
| "rmatch ic ds (Bol # r) pv s p os gs =
     (if p = 0 then rmatch ic ds r pv s p os gs else None)"
| "rmatch ic ds (Eol # r) pv s p os gs =
     (if s = [] \<or> s = [CHR 0x0A] then rmatch ic ds r pv s p os gs else None)"
| "rmatch ic ds (Wordb # r) pv s p os gs =
     (if word_before pv \<noteq> word_after s then rmatch ic ds r pv s p os gs else None)"
| "rmatch ic ds (Rep a lo hi greedy # r) pv s p os gs =
     (let n = length (takeWhile (atom_match ic ds a) s);
          n' = (case hi of None \<Rightarrow> n | Some h \<Rightarrow> min h n);
          rest = (\<lambda>j. rmatch ic ds r (if j = 0 then pv else Some (s ! (j - 1)))
                         (drop j s) (p + j) os gs)
      in if greedy then first_down rest lo n' else first_up rest lo n')"

text \<open>A match: its start, its end and the spans of its groups.\<close>

type_synonym rmatch_t = "nat \<times> nat \<times> (nat \<times> nat) list"

definition m_start :: "rmatch_t \<Rightarrow> nat" where
  "m_start m = fst m"

definition m_end :: "rmatch_t \<Rightarrow> nat" where
  "m_end m = fst (snd m)"

definition m_group0 :: "string \<Rightarrow> rmatch_t \<Rightarrow> string" where
  "m_group0 text m = py_slice text (m_start m) (m_end m)"

definition m_groups :: "string \<Rightarrow> rmatch_t \<Rightarrow> string list" where
  "m_groups text m = map (\<lambda>(a, b). py_slice text a b) (snd (snd m))"

text \<open>\<open>re.match(pattern, line)\<close>: a match at offset 0.\<close>

definition re_match :: "bool \<Rightarrow> bool \<Rightarrow> regex \<Rightarrow> string \<Rightarrow> rmatch_t option" where
  "re_match ic ds r s = map_option (\<lambda>(e, gs). (0, e, gs)) (rmatch ic ds r None s 0 [] [])"

text \<open>
  \<open>re.finditer(pattern, text)\<close>: the matches from left to right, each search starting where
  the match before ended. Every pattern of the program consumes at least one character,
  so no match is empty; after an empty match the model moves on by one character.
\<close>

function finditer_from :: "bool \<Rightarrow> bool \<Rightarrow> regex \<Rightarrow> char option \<Rightarrow> string \<Rightarrow> nat \<Rightarrow>
    rmatch_t list" where
  "finditer_from ic ds r pv s p =
     (case rmatch ic ds r pv s p [] [] of
        None \<Rightarrow> (case s of [] \<Rightarrow> [] | c # s' \<Rightarrow> finditer_from ic ds r (Some c) s' (Suc p))
      | Some (e, gs) \<Rightarrow>
          (p, e, gs) #
          (case s of [] \<Rightarrow> []
           | c # s' \<Rightarrow>
               if e \<le> p then finditer_from ic ds r (Some c) s' (Suc p)
               else finditer_from ic ds r (Some (s ! (e - p - 1))) (drop (e - p) s) e))"
  by pat_completeness auto
termination
  by (relation "measure (\<lambda>(ic, ds, r, pv, s, p). length s)") auto

definition re_finditer :: "bool \<Rightarrow> bool \<Rightarrow> regex \<Rightarrow> string \<Rightarrow> rmatch_t list" where
  "re_finditer ic ds r text = finditer_from ic ds r None text 0"

text \<open>\<open>re.search\<close>: the first match of \<open>re.finditer\<close>.\<close>

definition re_search :: "bool \<Rightarrow> bool \<Rightarrow> regex \<Rightarrow> string \<Rightarrow> rmatch_t option" where
  "re_search ic ds r text = (case re_finditer ic ds r text of [] \<Rightarrow> None | m # _ \<Rightarrow> Some m)"

text \<open>\<open>re.findall\<close> for a pattern without groups: the matched texts.\<close>

definition re_findall0 :: "bool \<Rightarrow> bool \<Rightarrow> regex \<Rightarrow> string \<Rightarrow> string list" where
  "re_findall0 ic ds r text = map (m_group0 text) (re_finditer ic ds r text)"

section \<open>Data model\<close>

datatype py_error = AttributeError | IndexError | ValueError

datatype topic_type = CHAPTER | SECTION | SUBSECTION | CONCEPT

text \<open>The class \<open>Topic\<close>; the field \<open>t_id\<close> is its \<open>id\<close>, \<open>t_type\<close> its \<open>type\<close>.\<close>

record topic =
  t_id :: string
  title :: string
  t_type :: topic_type
  level :: int
  parent_id :: "string option"
  content :: string
  page_range :: "int \<times> int"
  "keywords" :: "string list"

text \<open>
  The dictionary that \<open>_extract_formulas_by_pattern\<close> builds for a formula, with its keys
  \<open>id\<close>, \<open>latex\<close>, \<open>type\<close>, \<open>context\<close>, \<open>position\<close> and \<open>raw_match\<close>.
\<close>

record formula =
  f_id :: string
  latex :: string
  f_type :: string
  f_context :: string
  position :: nat
  raw_match :: string

text \<open>
  The dictionary that \<open>PDFParser.extract_formulas\<close> builds, with its keys \<open>id\<close>,
  \<open>latex\<close>, \<open>raw_text\<close>, \<open>start_pos\<close>, \<open>end_pos\<close> and \<open>type\<close>.
\<close>

record pformula =
  p_id :: string
  p_latex :: string
  raw_text :: string
  start_pos :: nat
  end_pos :: nat
  p_type :: string

section \<open>Keywords: \<open>_extract_keywords\<close>\<close>

text \<open>The pattern \<open>\b[A-Za-z]{3,}\b\<close>.\<close>

definition word_rx :: regex where
  "word_rx = [Wordb, at_least 3 (In [Range (CHR ''A'') (CHR ''Z''), Range (CHR ''a'') (CHR ''z'')]),
              Wordb]"

text \<open>The literal of the set \<open>stop_words\<close>, as written in the source.\<close>

definition stop_words :: "string list" where
  "stop_words = [
    ''the'', ''and'', ''for'', ''are'', ''but'', ''not'', ''you'', ''all'', ''can'', ''had'',
    ''her'', ''was'', ''one'', ''our'', ''out'', ''day'', ''get'', ''has'', ''him'', ''his'',
    ''how'', ''its'', ''may'', ''new'', ''now'', ''old'', ''see'', ''two'', ''who'', ''boy'',
    ''did'', ''man'', ''way'', ''she'', ''use'', ''her'', ''many'', ''oil'', ''sit'', ''set'',
    ''run'', ''eat'', ''far'', ''sea'', ''eye'', ''ask'', ''own'', ''say'', ''too'', ''any'',
    ''try'', ''let'', ''put'', ''end'', ''why'', ''turn'', ''here'', ''show'', ''every'',
    ''good'', ''me'', ''give'', ''our'', ''under'', ''name'', ''very'', ''through'', ''just'',
    ''form'', ''sentence'', ''great'', ''think'', ''where'', ''help'', ''much'', ''before'',
    ''move'', ''right'', ''too'', ''means'', ''old'', ''any'', ''same'', ''tell'', ''boy'',
    ''follow'', ''came'', ''want'', ''show'', ''also'', ''around'', ''farm'', ''three'',
    ''small'', ''set'', ''put'', ''end'', ''does'', ''another'', ''well'', ''large'',
    ''must'', ''big'', ''even'', ''such'', ''because'', ''turn'', ''here'', ''why'', ''ask'',
    ''went'', ''men'', ''read'', ''need'', ''land'', ''different'', ''home'', ''us'',
    ''move'', ''try'', ''kind'', ''hand'', ''picture'', ''again'', ''change'', ''off'',
    ''play'', ''spell'', ''air'', ''away'', ''animal'', ''house'', ''point'', ''page'',
    ''letter'', ''mother'', ''answer'', ''found'', ''study'', ''still'', ''learn'',
    ''should'', ''america'', ''world'']"

text \<open>
  \<open>word_freq[word] = word_freq.get(word, 0) + 1\<close> on a dictionary, which keeps its keys
  in the order of their first insertion.
\<close>

fun bump :: "(string \<times> nat) list \<Rightarrow> string \<Rightarrow> (string \<times> nat) list" where
  "bump [] w = [(w, 1)]"
| "bump ((k, v) # kvs) w = (if k = w then (k, v + 1) # kvs else (k, v) # bump kvs w)"

text \<open>
  \<open>sorted(..., key=lambda x: x[1], reverse=True)\<close> is stable: entries of equal frequency
  keep their order. It is the stable ascending sort on the negated frequency.
\<close>

definition extract_keywords :: "string \<Rightarrow> string list" where
  "extract_keywords text =
     (let words = re_findall0 False False word_rx (py_lower text);
          filtered_words = filter (\<lambda>word. word \<notin> set stop_words \<and> length word > 3) words;
          word_freq = foldl bump [] filtered_words;
          sorted_words = sort_key (\<lambda>x. - int (snd x)) word_freq
      in map fst (filter (\<lambda>x. snd x > 1) (take 10 sorted_words)))"

section \<open>Hierarchy: \<open>_set_parent_relationships\<close>\<close>

text \<open>
  The inner loop \<open>for j in range(i - 1, -1, -1)\<close>: \<open>scan_back topics lvl i\<close> looks at the
  indices \<open>i - 1\<close> down to \<open>0\<close> and returns the \<open>id\<close> of the first topic whose level is
  below \<open>lvl\<close>.
\<close>

fun scan_back :: "topic list \<Rightarrow> int \<Rightarrow> nat \<Rightarrow> string option" where
  "scan_back topics lvl 0 = None"
| "scan_back topics lvl (Suc j) =
     (if level (topics ! j) < lvl then Some (t_id (topics ! j)) else scan_back topics lvl j)"

text \<open>
  The outer loop over \<open>enumerate(topics)\<close>, from index \<open>i\<close> on. The topic at \<open>i\<close> is
  updated in place; when the scan finds nothing its \<open>parent_id\<close> stays what it was.
\<close>

function set_parent_from :: "nat \<Rightarrow> topic list \<Rightarrow> topic list" where
  "set_parent_from i topics =
     (if i < length topics then
        set_parent_from (Suc i)
          (case scan_back topics (level (topics ! i)) i of
             None \<Rightarrow> topics
           | Some p \<Rightarrow> topics[i := (topics ! i)\<lparr>parent_id := Some p\<rparr>])
      else topics)"
  by pat_completeness auto
termination
  by (relation "measure (\<lambda>(i, topics). length topics - i)") (auto split: option.splits)

definition set_parent_relationships :: "topic list \<Rightarrow> topic list" where
  "set_parent_relationships topics = set_parent_from 0 topics"

section \<open>The heading segmenter: \<open>_identify_structural_topics\<close>\<close>

definition chr_class :: atom where
  "chr_class = In [One (CHR '':''), One (CHR ''.'')]"

text \<open>
  The list \<open>patterns\<close>: \<open>^Chapter\s+(\d+)[:\.]?\s*(.+)$\<close>, \<open>^Section\s+(\d+)[:\.]?\s*(.+)$\<close>,
  \<open>^(\d+)\.\s+(.+)$\<close>, \<open>^(\d+)\.(\d+)\s+(.+)$\<close> and \<open>^#{1,3}\s+(.+)$\<close>, each with its
  level and topic type.
\<close>

definition heading_patterns :: "(regex \<times> int \<times> topic_type) list" where
  "heading_patterns = [
     (Bol # lits ''Chapter'' @
        [plus (In [SpaceC]), Open, plus (In [DigitC]), Close, opt chr_class, star (In [SpaceC]),
         Open, plus Dot, Close, Eol], 1, CHAPTER),
     (Bol # lits ''Section'' @
        [plus (In [SpaceC]), Open, plus (In [DigitC]), Close, opt chr_class, star (In [SpaceC]),
         Open, plus Dot, Close, Eol], 2, SECTION),
     ([Bol, Open, plus (In [DigitC]), Close, lit (CHR ''.''), plus (In [SpaceC]),
       Open, plus Dot, Close, Eol], 2, SECTION),
     ([Bol, Open, plus (In [DigitC]), Close, lit (CHR ''.''), Open, plus (In [DigitC]), Close,
       plus (In [SpaceC]), Open, plus Dot, Close, Eol], 3, SUBSECTION),
     ([Bol, Rep (In [One (CHR ''#'')]) 1 (Some 3) True, plus (In [SpaceC]),
       Open, plus Dot, Close, Eol], 2, SECTION)]"

text \<open>
  The pattern \<open>^(Chapter|Section|\d+\.|\#{1,3})\<close> that ends the content of a topic. Only
  whether it matches is used, so it is the list of its four alternatives.
\<close>

definition header_alternatives :: "regex list" where
  "header_alternatives = [
     Bol # Open # lits ''Chapter'' @ [Close],
     Bol # Open # lits ''Section'' @ [Close],
     [Bol, Open, plus (In [DigitC]), lit (CHR ''.''), Close],
     [Bol, Open, Rep (In [One (CHR ''#'')]) 1 (Some 3) True, Close]]"

definition is_header :: "string \<Rightarrow> bool" where
  "is_header line \<longleftrightarrow> list_ex (\<lambda>r. re_match True False r line \<noteq> None) header_alternatives"

text \<open>The pattern \<open>--- Page (\d+) ---\<close>.\<close>

definition page_rx :: regex where
  "page_rx = lits ''--- Page '' @ [Open, plus (In [DigitC]), Close] @ lits '' ---''"

text \<open>
  The loop of \<open>_extract_topic_content\<close> over the lines \<open>lines[start_line + 1 :
  min(start_line + max_lines, len(lines))]\<close>.
\<close>

fun content_lines :: "string list \<Rightarrow> string list" where
  "content_lines [] = []"
| "content_lines (l # ls) =
     (let line = py_strip l
      in if is_header line then []
         else if line \<noteq> [] \<and> \<not> py_startswith line ''--- Page'' then line # content_lines ls
         else content_lines ls)"

definition extract_topic_content :: "string list \<Rightarrow> nat \<Rightarrow> nat \<Rightarrow> string" where
  "extract_topic_content lines start_line max_lines =
     py_join ''\<newline>''
       (content_lines
          (take (min (start_line + max_lines) (length lines) - (start_line + 1))
                (drop (start_line + 1) lines)))"

text \<open>
  \<open>int(s)\<close> on a string of decimal digits. CPython refuses a string of more than 4300
  digits with a \<open>ValueError\<close> (the default of \<open>sys.int_max_str_digits\<close>).
\<close>

definition digit_value :: "char \<Rightarrow> int" where
  "digit_value c = int (of_char c) - int (of_char (CHR ''0''))"

definition py_int :: "string \<Rightarrow> py_error + int" where
  "py_int s =
     (if length s > 4300 then Inl ValueError
      else Inr (foldl (\<lambda>a c. 10 * a + digit_value c) 0 s))"

record seg_state =
  topics :: "topic list"
  topic_id :: nat
  current_page :: int

text \<open>
  The body of the \<open>try\<close> that follows a match of a heading pattern: the title is taken
  from the groups; \<open>groups[0]\<close> on an empty tuple is an \<open>IndexError\<close>.
\<close>

definition title_of :: "topic_type \<Rightarrow> string list \<Rightarrow> string \<Rightarrow> py_error + string" where
  "title_of ty groups whole =
     (if ty = CHAPTER then
        (if length groups \<ge> 2 then Inr (py_strip (groups ! 1))
         else case groups of [] \<Rightarrow> Inl IndexError | g # _ \<Rightarrow> Inr (py_strip g))
      else if length groups \<ge> 3 then Inr (py_strip (groups ! 2))
      else if length groups \<ge> 1 then Inr (py_strip (last groups))
      else Inr (py_strip whole))"

definition add_topic :: "string list \<Rightarrow> nat \<Rightarrow> seg_state \<Rightarrow> string \<Rightarrow> int \<Rightarrow> topic_type \<Rightarrow>
    seg_state" where
  "add_topic lines line_num st ttl lvl ty =
     (let cont = extract_topic_content lines line_num 50
      in st\<lparr>topics := topics st @
               [\<lparr>t_id = ''topic_'' @ py_str_nat (topic_id st), title = ttl, t_type = ty,
                 level = lvl, parent_id = None, content = cont,
                 page_range = (current_page st, current_page st),
                 keywords = extract_keywords cont\<rparr>],
             topic_id := topic_id st + 1\<rparr>)"

definition match_block :: "string list \<Rightarrow> nat \<Rightarrow> string \<Rightarrow> seg_state \<Rightarrow> rmatch_t \<Rightarrow> int \<Rightarrow>
    topic_type \<Rightarrow> py_error + seg_state" where
  "match_block lines line_num line st m lvl ty =
     (case title_of ty (m_groups line m) (m_group0 line m) of
        Inl e \<Rightarrow> Inl e
      | Inr ttl \<Rightarrow>
          Inr (if length ttl > 2 \<and> \<not> py_isdigit ttl
               then add_topic lines line_num st ttl lvl ty else st))"

text \<open>
  The loop \<open>for pattern, level, topic_type in patterns\<close>: the first pattern that matches
  ends the loop (\<open>break\<close>), unless its \<open>try\<close> raised an \<open>AttributeError\<close> or an
  \<open>IndexError\<close>, which the \<open>except\<close> answers with \<open>continue\<close>.
\<close>

fun try_patterns :: "string list \<Rightarrow> nat \<Rightarrow> string \<Rightarrow> seg_state \<Rightarrow>
    (regex \<times> int \<times> topic_type) list \<Rightarrow> py_error + seg_state" where
  "try_patterns lines line_num line st [] = Inr st"
| "try_patterns lines line_num line st ((pattern, lvl, ty) # ps) =
     (case re_match True False pattern line of
        None \<Rightarrow> try_patterns lines line_num line st ps
      | Some m \<Rightarrow>
          (case match_block lines line_num line st m lvl ty of
             Inl e \<Rightarrow>
               if e = AttributeError \<or> e = IndexError
               then try_patterns lines line_num line st ps else Inl e
           | Inr st' \<Rightarrow> Inr st'))"

text \<open>
  The \<open>try\<close> that reads a page marker; its \<open>except\<close> passes over an \<open>AttributeError\<close> or
  a \<open>ValueError\<close>.
\<close>

definition page_block :: "string \<Rightarrow> seg_state \<Rightarrow> py_error + seg_state" where
  "page_block line st =
     (case re_search False False page_rx line of
        None \<Rightarrow> Inr st
      | Some m \<Rightarrow>
          (case py_int (hd (m_groups line m)) of
             Inl e \<Rightarrow> Inl e
           | Inr n \<Rightarrow> Inr (st\<lparr>current_page := n\<rparr>)))"

definition line_step :: "(regex \<times> int \<times> topic_type) list \<Rightarrow> string list \<Rightarrow> seg_state \<Rightarrow>
    nat \<times> string \<Rightarrow> py_error + seg_state" where
  "line_step patterns lines st x =
     (case x of (line_num, raw) \<Rightarrow>
        let line = py_strip raw
        in if py_startswith line ''--- Page '' then
             (case page_block line st of
                Inl e \<Rightarrow> if e = AttributeError \<or> e = ValueError then Inr st else Inl e
              | Inr st' \<Rightarrow> Inr st')
           else if line = [] \<or> length line < 3 then Inr st
           else try_patterns lines line_num line st patterns)"

fun lines_loop :: "(regex \<times> int \<times> topic_type) list \<Rightarrow> string list \<Rightarrow> seg_state \<Rightarrow>
    (nat \<times> string) list \<Rightarrow> py_error + seg_state" where
  "lines_loop patterns lines st [] = Inr st"
| "lines_loop patterns lines st (x # xs) =
     (case line_step patterns lines st x of
        Inl e \<Rightarrow> Inl e
      | Inr st' \<Rightarrow> lines_loop patterns lines st' xs)"

definition identify_structural_topics :: "string \<Rightarrow> py_error + topic list" where
  "identify_structural_topics text =
     (let lines = py_split text ''\<newline>''
      in case lines_loop heading_patterns lines
                \<lparr>topics = [], topic_id = 1, current_page = 1\<rparr>
                (zip [0..<length lines] lines) of
           Inl e \<Rightarrow> Inl e
         | Inr st \<Rightarrow> Inr (set_parent_relationships (topics st)))"

section \<open>The topic merger: \<open>_merge_topics\<close> and \<open>_calculate_similarity\<close>\<close>

text \<open>
  \<open>_calculate_similarity\<close> returns the float \<open>len(intersection) / len(union)\<close>, which
  the caller compares with \<open>0.7\<close>. The quotient is modelled as the rational number it
  rounds, and the comparison as the comparison with \<open>7/10\<close>; the two agree as long as the
  sets have fewer than \<open>10^14\<close> words, since a quotient other than \<open>7/10\<close> then differs from
  it by more than the distance of two neighbouring floats.
\<close>

definition calculate_similarity :: "string \<Rightarrow> string \<Rightarrow> rat" where
  "calculate_similarity text1 text2 =
     (let words1 = set (py_split_ws text1); words2 = set (py_split_ws text2)
      in if words1 = {} \<or> words2 = {} then 0
         else of_nat (card (words1 \<inter> words2)) / of_nat (card (words1 \<union> words2)))"

definition similar :: "topic \<Rightarrow> topic \<Rightarrow> bool" where
  "similar ai_topic existing_topic \<longleftrightarrow>
     calculate_similarity (py_lower (title ai_topic)) (py_lower (title existing_topic)) > 7 / 10"

text \<open>
  The inner loop \<open>for existing_topic in merged_topics\<close>. At the first topic that is similar
  to the candidate the keywords of the candidate are added to it and the loop ends; the
  result is then the updated list, and \<open>None\<close> when no topic is similar
  (\<open>is_duplicate\<close> stays \<open>False\<close>). \<open>list(set(...))\<close> lists a set in an order that
  Python does not fix: \<open>list_set\<close> stands for it and is a parameter. A topic is a
  value of its own here: the merger writes no field but \<open>keywords\<close>, and two topics
  that share one list object as their keywords are not covered.
\<close>

fun merge_into :: "(string list \<Rightarrow> string list) \<Rightarrow> topic \<Rightarrow> topic list \<Rightarrow> topic list option" where
  "merge_into list_set ai_topic [] = None"
| "merge_into list_set ai_topic (existing_topic # rest) =
     (if similar ai_topic existing_topic
      then Some (existing_topic\<lparr>keywords :=
                   list_set (keywords existing_topic @ keywords ai_topic)\<rparr> # rest)
      else map_option ((#) existing_topic) (merge_into list_set ai_topic rest))"

definition merge_step :: "(string list \<Rightarrow> string list) \<Rightarrow> topic list \<Rightarrow> topic \<Rightarrow> topic list" where
  "merge_step list_set merged_topics ai_topic =
     (case merge_into list_set ai_topic merged_topics of
        Some merged' \<Rightarrow> merged'
      | None \<Rightarrow> if length (title ai_topic) > 3 then merged_topics @ [ai_topic]
                else merged_topics)"

definition merge_topics :: "(string list \<Rightarrow> string list) \<Rightarrow> topic list \<Rightarrow> topic list \<Rightarrow>
    topic list" where
  "merge_topics list_set structural_topics ai_topics =
     foldl (merge_step list_set) structural_topics ai_topics"

section \<open>The formula extractor: \<open>_extract_formulas_by_pattern\<close>\<close>

definition not_comma_dot_nl :: atom where
  "not_comma_dot_nl = NotIn [One (CHR '',''), One (CHR ''.''), One (CHR 0x0A)]"

definition ident_start :: atom where
  "ident_start = In [Range (CHR ''A'') (CHR ''Z''), Range (CHR ''a'') (CHR ''z''), One (CHR ''_'')]"

text \<open>
  The environment patterns \<open>\\begin\{name\}(.*?)\\end\{name\}\<close>; \<open>CHR 0x5C\<close> is the
  backslash.
\<close>

definition env_rx :: "string \<Rightarrow> regex" where
  "env_rx name =
     lits (CHR 0x5C # ''begin{'' @ name @ ''}'') @ [Open, lazy_star Dot, Close] @
     lits (CHR 0x5C # ''end{'' @ name @ ''}'')"

text \<open>
  The list \<open>patterns\<close> of \<open>_extract_formulas_by_pattern\<close>, in its order. The symbols of
  the class \<open>[\<integral>\<Sum>\<Prod>]\<close> and the symbol \<open>\<partial>\<close> are code points above 255: in the texts of
  the model nothing matches them, and their classes are empty.
\<close>

definition formula_patterns :: "(regex \<times> string) list" where
  "formula_patterns = [
     (lits ''$$'' @ [Open, plus (NotIn [One (CHR ''$'')]), Close] @ lits ''$$'', ''display_math''),
     ([lit (CHR ''$''), Open, at_least 3 (NotIn [One (CHR ''$''), One (CHR 0x0A)]), Close,
       lit (CHR ''$'')], ''inline_math''),
     (env_rx ''equation'', ''equation''),
     (env_rx ''align'', ''align''),
     ([Open, one ident_start, star (In [WordC]), star (In [SpaceC]), lit (CHR ''=''),
       star (In [SpaceC]), at_least 5 not_comma_dot_nl, Close], ''equation''),
     ([Open, one (In []), at_least 3 not_comma_dot_nl, Close], ''integral_sum''),
     ([Open, one ident_start, star (In [WordC]), lit (CHR ''(''),
       plus (NotIn [One (CHR '')'')]), lit (CHR '')''), star (In [SpaceC]), lit (CHR ''=''),
       star (In [SpaceC]), at_least 3 not_comma_dot_nl, Close], ''function''),
     ([Open, lit (CHR ''d''), one ident_start, star (In [WordC]), lit (CHR ''/''),
       lit (CHR ''d''), one ident_start, star (In [WordC]), star not_comma_dot_nl, Close],
      ''derivative''),
     ([Open, one (In []), one ident_start, star (In [WordC]), lit (CHR ''/''),
       one (In []), one ident_start, star (In [WordC]), star not_comma_dot_nl, Close],
      ''partial_derivative'')]"

text \<open>\<open>s.replace('\n', ' ')\<close>.\<close>

definition newlines_to_spaces :: "string \<Rightarrow> string" where
  "newlines_to_spaces s = map (\<lambda>c. if c = CHR 0x0A then CHR '' '' else c) s"

text \<open>
  The body of the loop over the matches of one pattern. The state is the list \<open>formulas\<close>
  with the counter \<open>formula_id\<close>. \<open>max(0, match.start() - 100)\<close> is the difference of
  natural numbers.
\<close>

definition match_step :: "string \<Rightarrow> string \<Rightarrow> formula list \<times> nat \<Rightarrow> rmatch_t \<Rightarrow> formula list \<times> nat" where
  "match_step text formula_type st m =
     (case st of (formulas, formula_id) \<Rightarrow>
        let formula_text = py_strip (if length (m_groups text m) > 0 then hd (m_groups text m)
                                     else m_group0 text m)
        in if length formula_text < 3 \<or> py_isdigit formula_text then (formulas, formula_id)
           else
             let start_pos = m_start m - 100;
                 end_pos = min (length text) (m_end m + 100);
                 ctx = py_strip (newlines_to_spaces (py_slice text start_pos end_pos))
             in (formulas @
                   [\<lparr>f_id = ''formula_'' @ py_str_nat formula_id, latex = formula_text,
                     f_type = formula_type, f_context = ctx, position = m_start m,
                     raw_match = m_group0 text m\<rparr>],
                 formula_id + 1))"

definition pattern_step :: "string \<Rightarrow> formula list \<times> nat \<Rightarrow> regex \<times> string \<Rightarrow> formula list \<times> nat" where
  "pattern_step text st x =
     (case x of (pattern, formula_type) \<Rightarrow>
        foldl (match_step text formula_type) st (re_finditer True True pattern text))"

text \<open>The list \<open>formulas\<close> when the loop over the patterns has ended: the raw candidates.\<close>

definition formula_candidates :: "string \<Rightarrow> formula list" where
  "formula_candidates text = fst (foldl (pattern_step text) ([], 1) formula_patterns)"

text \<open>\<open>re.sub(r'\s+', '', s.lower())\<close>: the lowered text without its whitespace.\<close>

definition normalize_latex :: "string \<Rightarrow> string" where
  "normalize_latex s = filter (\<lambda>c. \<not> py_isspace_char c) (py_lower s)"

text \<open>
  The loop that removes duplicates; its state is \<open>unique_formulas\<close> with the members of
  the set \<open>seen_formulas\<close>.
\<close>

definition dedup_step :: "formula list \<times> string list \<Rightarrow> formula \<Rightarrow> formula list \<times> string list" where
  "dedup_step st f =
     (case st of (unique_formulas, seen_formulas) \<Rightarrow>
        let normalized = normalize_latex (latex f)
        in if normalized \<notin> set seen_formulas \<and> length normalized > 2
           then (unique_formulas @ [f], normalized # seen_formulas)
           else (unique_formulas, seen_formulas))"

definition remove_duplicates :: "formula list \<Rightarrow> formula list" where
  "remove_duplicates formulas = fst (foldl dedup_step ([], []) (sort_key position formulas))"

definition extract_formulas_by_pattern :: "string \<Rightarrow> formula list" where
  "extract_formulas_by_pattern text = remove_duplicates (formula_candidates text)"

section \<open>The formula extractor of the PDF parser: \<open>extract_formulas\<close>\<close>

text \<open>
  The lists \<open>latex_patterns\<close> (compiled with \<open>re.DOTALL | re.IGNORECASE\<close>) and
  \<open>math_patterns\<close> (compiled with \<open>re.MULTILINE\<close>).
\<close>

definition latex_patterns :: "regex list" where
  "latex_patterns = [
     lits ''$$'' @ [Open, plus (NotIn [One (CHR ''$'')]), Close] @ lits ''$$'',
     [lit (CHR ''$''), Open, plus (NotIn [One (CHR ''$'')]), Close, lit (CHR ''$'')],
     env_rx ''equation'', env_rx ''align'', env_rx ''gather'']"

definition ascii_letter :: atom where
  "ascii_letter = In [Range (CHR ''a'') (CHR ''z''), Range (CHR ''A'') (CHR ''Z'')]"

definition math_patterns :: "regex list" where
  "math_patterns = [
     [Open, one ascii_letter, star (In [SpaceC]), lit (CHR ''=''), star (In [SpaceC]),
      plus not_comma_dot_nl, Close],
     [Open, one (In []), plus not_comma_dot_nl, Close],
     [Open, plus ascii_letter, lit (CHR ''(''), plus (NotIn [One (CHR '')'')]), lit (CHR '')''),
      star (In [SpaceC]), lit (CHR ''=''), star (In [SpaceC]), plus not_comma_dot_nl, Close]]"

definition latex_step :: "string \<Rightarrow> pformula list \<times> nat \<Rightarrow> rmatch_t \<Rightarrow> pformula list \<times> nat" where
  "latex_step text st m =
     (case st of (formulas, formula_id) \<Rightarrow>
        let formula_text = py_strip (hd (m_groups text m))
        in if length formula_text > 2
           then (formulas @
                   [\<lparr>p_id = ''formula_'' @ py_str_nat formula_id, p_latex = formula_text,
                     raw_text = m_group0 text m, start_pos = m_start m, end_pos = m_end m,
                     p_type = ''latex''\<rparr>],
                 formula_id + 1)
           else (formulas, formula_id))"

definition math_step :: "string \<Rightarrow> pformula list \<times> nat \<Rightarrow> rmatch_t \<Rightarrow> pformula list \<times> nat" where
  "math_step text st m =
     (case st of (formulas, formula_id) \<Rightarrow>
        let formula_text = py_strip (hd (m_groups text m))
        in if length formula_text > 3 \<and> CHR ''='' \<in> set formula_text
           then (formulas @
                   [\<lparr>p_id = ''formula_'' @ py_str_nat formula_id, p_latex = formula_text,
                     raw_text = m_group0 text m, start_pos = m_start m, end_pos = m_end m,
                     p_type = ''expression''\<rparr>],
                 formula_id + 1)
           else (formulas, formula_id))"

definition pformula_candidates :: "string \<Rightarrow> pformula list" where
  "pformula_candidates text =
     fst (foldl (\<lambda>st pattern. foldl (math_step text) st (re_finditer False False pattern text))
            (foldl (\<lambda>st pattern. foldl (latex_step text) st (re_finditer True True pattern text))
               ([], 1) latex_patterns)
            math_patterns)"

text \<open>\<open>formula['latex'].replace(' ', '').lower()\<close>: only the space character is removed.\<close>

definition formula_key :: "string \<Rightarrow> string" where
  "formula_key s = py_lower (filter (\<lambda>c. c \<noteq> CHR '' '') s)"

definition pdedup_step :: "pformula list \<times> string list \<Rightarrow> pformula \<Rightarrow> pformula list \<times> string list" where
  "pdedup_step st f =
     (case st of (unique_formulas, seen_formulas) \<Rightarrow>
        if formula_key (p_latex f) \<notin> set seen_formulas
        then (unique_formulas @ [f], formula_key (p_latex f) # seen_formulas)
        else (unique_formulas, seen_formulas))"

definition extract_formulas :: "string \<Rightarrow> pformula list" where
  "extract_formulas text =
     fst (foldl pdedup_step ([], []) (sort_key start_pos (pformula_candidates text)))"

section \<open>Notions used in the statements and proofs\<close>

text \<open>
  Both loops that remove duplicates have the same shape: an element is kept when its key
  has not been seen and the element is admissible. \<open>dedup_inv\<close> collects what such a
  loop establishes over a list sorted by \<open>pos\<close>.
\<close>

definition gen_step :: "('a \<Rightarrow> 'k) \<Rightarrow> ('a \<Rightarrow> bool) \<Rightarrow> 'a list \<times> 'k list \<Rightarrow> 'a \<Rightarrow> 'a list \<times> 'k list" where
  "gen_step key ok st f =
     (case st of (u, s) \<Rightarrow> if key f \<notin> set s \<and> ok f then (u @ [f], key f # s) else (u, s))"

definition dedup_inv :: "('a \<Rightarrow> 'k) \<Rightarrow> ('a \<Rightarrow> bool) \<Rightarrow> ('a \<Rightarrow> nat) \<Rightarrow> 'a list \<Rightarrow> 'a list \<times> 'k list \<Rightarrow> bool" where
  "dedup_inv key ok pos xs st \<longleftrightarrow>
     set (snd st) = key ` set (fst st) \<and> distinct (map key (fst st)) \<and>
     set (fst st) \<subseteq> set xs \<and> (\<forall>f\<in>set (fst st). ok f) \<and>
     (\<forall>c\<in>set xs. ok c \<longrightarrow> key c \<in> key ` set (fst st)) \<and>
     (\<forall>f\<in>set (fst st). \<forall>c\<in>set xs. key c = key f \<longrightarrow> pos f \<le> pos c)"

text \<open>
  The keyword list as claim C6 describes it, with the length bound of the code (at least
  four letters): the alphabetic words of the lowered text, without the stop words, counted;
  the words that occur more than once, in the order of their first occurrence, sorted by
  falling frequency (a stable sort, so equal frequencies keep the first-seen order); the
  first ten of them.
\<close>

definition first_seen :: "'a list \<Rightarrow> 'a list" where
  "first_seen ws = rev (remdups (rev ws))"

definition keywords_spec :: "string \<Rightarrow> string list" where
  "keywords_spec text =
     (let words = filter (\<lambda>w. 4 \<le> length w) (re_findall0 False False word_rx (py_lower text));
          kept = filter (\<lambda>w. w \<notin> set stop_words) words;
          frequent = filter (\<lambda>w. 1 < count_list kept w) (first_seen kept)
      in take 10 (sort_key (\<lambda>w. - int (count_list kept w)) frequent))"

text \<open>A topic with its keywords erased: two topics agree in every other field when these agree.\<close>

definition no_kw :: "topic \<Rightarrow> topic" where
  "no_kw t = t\<lparr>keywords := []\<rparr>"

text \<open>A candidate as \<open>_parse_topic_analysis_response\<close> builds it, for the examples.\<close>

definition ai_topic :: "string \<Rightarrow> string \<Rightarrow> string list \<Rightarrow> topic" where
  "ai_topic i ttl kws =
     \<lparr>t_id = i, title = ttl, t_type = CONCEPT, level = 2, parent_id = None, content = [],
      page_range = (1, 1), keywords = kws\<rparr>"

text \<open>
  What the loop of the segmenter keeps: no topic has a parent yet, and the topics carry
  the identifiers \<open>topic_1\<close>, \<open>topic_2\<close>, ... up to the counter.
\<close>

definition seg_inv :: "seg_state \<Rightarrow> bool" where
  "seg_inv st \<longleftrightarrow>
     list_all (\<lambda>t. parent_id t = None) (topics st) \<and> 1 \<le> topic_id st \<and>
     map t_id (topics st) = map (\<lambda>k. ''topic_'' @ py_str_nat k) [1..<topic_id st]"

text \<open>
  The candidates that the merger keeps when it starts from an empty list, by their index
  in the candidate list: a candidate is kept when its title has more than three characters
  and it is similar to no kept candidate before it. A candidate is absorbed into the kept
  candidate at \<open>i\<close> when that is the first kept candidate before it that it is similar
  to. \<open>merged_keywords C i\<close> are the keywords of the candidate at \<open>i\<close> with those of the
  candidates absorbed into it.
\<close>

function kept :: "topic list \<Rightarrow> nat \<Rightarrow> bool" where
  "kept C j \<longleftrightarrow>
     3 < length (title (C ! j)) \<and>
     list_all (\<lambda>i. kept C i \<longrightarrow> \<not> similar (C ! j) (C ! i)) [0..<j]"
  by pat_completeness auto
termination
  by (relation "measure snd") auto

declare kept.simps [simp del]

definition absorbed_into :: "topic list \<Rightarrow> nat \<Rightarrow> nat \<Rightarrow> bool" where
  "absorbed_into C i j \<longleftrightarrow>
     i < j \<and> kept C i \<and> similar (C ! j) (C ! i) \<and>
     list_all (\<lambda>i'. kept C i' \<longrightarrow> \<not> similar (C ! j) (C ! i')) [0..<i]"

definition merged_keywords :: "topic list \<Rightarrow> nat \<Rightarrow> string set" where
  "merged_keywords C i =
     set (keywords (C ! i)) \<union>
     set (concat (map (\<lambda>j. keywords (C ! j)) (filter (absorbed_into C i) [0..<length C])))"

section \<open>Properties of the chunker\<close>

text \<open>
  Claim C3: every chunk that the chunker returns is within the token budget, unless it is a
  single sentence that exceeds the budget by itself. The code does not keep this: a
  paragraph that arrives while \<open>current_chunk\<close> is not empty becomes the new
  \<open>current_chunk\<close> without being split, although the branch beside it splits a long
  paragraph into sentences. With budget 1 the second chunk below has an estimated token
  count of 4 and holds three sentences.
\<close>

theorem split_text_into_chunks_unsplit_paragraph:
  "split_text_into_chunks ''ab\<newline>\<newline>Aaaa. Bbbb. Cccc.'' 1 = [''ab'', ''Aaaa. Bbbb. Cccc.''] \<and>
   est_tokens ''Aaaa. Bbbb. Cccc.'' = 4 \<and>
   py_split ''Aaaa. Bbbb. Cccc.'' ''. '' = [''Aaaa'', ''Bbbb'', ''Cccc.'']"
  by code_simp

text \<open>
  Claim C8, as stated: on \<open>"A. B. C."\<close> with budget 1 the chunker returns exactly three
  chunks. It does not.
\<close>

theorem split_text_into_chunks_abc_counterexample:
  "\<not> length (split_text_into_chunks ''A. B. C.'' 1) = 3"
  by code_simp

text \<open>
  Claim C8, amended: on \<open>"A. B. C."\<close> with budget 1 the chunker returns fewer than three
  chunks, none of them empty: the sentences \<open>A\<close> and \<open>B\<close> fit the budget together
  (four characters, one token) and are packed into the first chunk.
\<close>

theorem split_text_into_chunks_abc_packed:
  "length (split_text_into_chunks ''A. B. C.'' 1) < 3 \<and>
   split_text_into_chunks ''A. B. C.'' 1 \<noteq> [] \<and>
   [] \<notin> set (split_text_into_chunks ''A. B. C.'' 1) \<and>
   prefix ''A. B'' (hd (split_text_into_chunks ''A. B. C.'' 1)) \<and>
   est_tokens ''A. B'' \<le> 1"
  by code_simp

section \<open>Properties of the formula extractors\<close>

lemma gen_dedup_inv:
  assumes okkey: "\<And>a b. key a = key b \<Longrightarrow> ok a = ok b"
  shows "sorted (map pos xs) \<Longrightarrow> dedup_inv key ok pos xs (foldl (gen_step key ok) ([], []) xs)"
proof (induction xs rule: rev_induct)
  case Nil
  show ?case by (simp add: dedup_inv_def)
next
  case (snoc x xs)
  from snoc.prems have srt: "sorted (map pos xs)" and le: "\<forall>y\<in>set xs. pos y \<le> pos x"
    by (auto simp: sorted_append)
  obtain u s where st: "foldl (gen_step key ok) ([], []) xs = (u, s)"
    by (cases "foldl (gen_step key ok) ([], []) xs")
  from snoc.IH [OF srt] st have inv: "dedup_inv key ok pos xs (u, s)"
    by simp
  show ?case
  proof (cases "key x \<notin> set s \<and> ok x")
    case True
    then have new: "foldl (gen_step key ok) ([], []) (xs @ [x]) = (u @ [x], key x # s)"
      by (simp add: st gen_step_def)
    from inv have s: "set s = key ` set u"
      and cov: "\<forall>c\<in>set xs. ok c \<longrightarrow> key c \<in> key ` set u"
      unfolding dedup_inv_def by simp_all
    from True s have notin: "key x \<notin> key ` set u" by simp
    have nokey: "\<forall>c\<in>set xs. key c \<noteq> key x"
      using cov notin okkey True by metis
    have nokey': "\<forall>f\<in>set u. key f \<noteq> key x"
      using notin by (metis imageI)
    from inv True le nokey nokey' show ?thesis
      unfolding new dedup_inv_def by (auto simp: image_iff)
  next
    case False
    then have same: "foldl (gen_step key ok) ([], []) (xs @ [x]) = (u, s)"
      by (auto simp add: st gen_step_def)
    from inv False le show ?thesis
      unfolding same dedup_inv_def by auto
  qed
qed

lemma dedup_props:
  fixes key :: "'a \<Rightarrow> 'k" and pos :: "'a \<Rightarrow> nat" and cs :: "'a list"
  assumes okkey: "\<And>a b. key a = key b \<Longrightarrow> ok a = ok b"
  defines "out \<equiv> fst (foldl (gen_step key ok) ([], []) (sort_key pos cs))"
  shows "distinct (map key out)"
    and "set out \<subseteq> set cs"
    and "\<forall>f\<in>set out. ok f"
    and "\<forall>c\<in>set cs. ok c \<longrightarrow> (\<exists>f\<in>set out. key f = key c \<and> pos f \<le> pos c)"
proof -
  have inv: "dedup_inv key ok pos (sort_key pos cs)
      (foldl (gen_step key ok) ([], []) (sort_key pos cs))"
    by (rule gen_dedup_inv [OF okkey]) simp_all
  from inv show "distinct (map key out)" and "set out \<subseteq> set cs" and "\<forall>f\<in>set out. ok f"
    unfolding dedup_inv_def out_def by simp_all
  from inv have cov: "\<forall>c\<in>set cs. ok c \<longrightarrow> key c \<in> key ` set out"
    and early: "\<forall>f\<in>set out. \<forall>c\<in>set cs. key c = key f \<longrightarrow> pos f \<le> pos c"
    unfolding dedup_inv_def out_def by simp_all
  show "\<forall>c\<in>set cs. ok c \<longrightarrow> (\<exists>f\<in>set out. key f = key c \<and> pos f \<le> pos c)"
  proof (intro ballI impI)
    fix c assume c: "c \<in> set cs" and ok: "ok c"
    with cov obtain f where f: "f \<in> set out" and k: "key c = key f"
      by (metis (no_types, lifting) imageE)
    from early f c k have "pos f \<le> pos c" by blast
    with f k show "\<exists>f\<in>set out. key f = key c \<and> pos f \<le> pos c"
      by (intro bexI [of _ f]) simp_all
  qed
qed

lemma dedup_step_gen:
  "dedup_step = gen_step (\<lambda>f. normalize_latex (latex f)) (\<lambda>f. 2 < length (normalize_latex (latex f)))"
  by (intro ext) (auto simp: dedup_step_def gen_step_def Let_def split: prod.splits)

lemma pdedup_step_gen:
  "pdedup_step = gen_step (\<lambda>f. formula_key (p_latex f)) (\<lambda>f. True)"
  by (intro ext) (auto simp: pdedup_step_def gen_step_def Let_def split: prod.splits)

text \<open>
  Claim C1, as stated: every normalized key that occurs among the raw candidates has a
  surviving record, and no two records of a formula extractor share a latex value once
  all whitespace is removed and the text lowered. In \<open>_extract_formulas_by_pattern\<close> a
  candidate whose key has at most two characters is dropped (\<open>len(normalized) > 2\<close>): on
  \<open>"$a b$"\<close> the only candidate, with key \<open>ab\<close>, has no survivor. In
  \<open>PDFParser.extract_formulas\<close> the key removes the space character only: on the second
  text both records survive, and their latex values coincide once the newline is removed.
\<close>

theorem extract_formulas_dedup_counterexample:
  "map latex (formula_candidates ''$a b$'') = [''a b''] \<and>
   extract_formulas_by_pattern ''$a b$'' = [] \<and>
   map p_latex (extract_formulas ''$$a\<newline>bc$$ $$abc$$'') = [''a\<newline>bc'', ''abc''] \<and>
   normalize_latex ''a\<newline>bc'' = normalize_latex ''abc''"
  by code_simp

text \<open>
  Claim C1, amended. The list that \<open>_extract_formulas_by_pattern\<close> returns has no two
  records with the same normalized latex (all whitespace removed, lowered); each of its
  records is a raw candidate whose normalized key has more than two characters; and for
  each normalized key of more than two characters that occurs among the raw candidates,
  the record that survives with this key has the smallest position among the candidates
  that share it. The list that \<open>PDFParser.extract_formulas\<close> returns has no two records
  with the same key, where the key is the lowered latex without its space characters;
  each normalized key of a raw candidate survives, in the candidate of the smallest
  start offset.
\<close>

theorem extract_formulas_dedup:
  "distinct (map (\<lambda>f. normalize_latex (latex f)) (extract_formulas_by_pattern text)) \<and>
   set (extract_formulas_by_pattern text) \<subseteq> set (formula_candidates text) \<and>
   (\<forall>f\<in>set (extract_formulas_by_pattern text). 2 < length (normalize_latex (latex f))) \<and>
   (\<forall>c\<in>set (formula_candidates text). 2 < length (normalize_latex (latex c)) \<longrightarrow>
      (\<exists>f\<in>set (extract_formulas_by_pattern text).
         normalize_latex (latex f) = normalize_latex (latex c) \<and> position f \<le> position c)) \<and>
   distinct (map (\<lambda>f. formula_key (p_latex f)) (extract_formulas text)) \<and>
   set (extract_formulas text) \<subseteq> set (pformula_candidates text) \<and>
   (\<forall>c\<in>set (pformula_candidates text).
      (\<exists>f\<in>set (extract_formulas text).
         formula_key (p_latex f) = formula_key (p_latex c) \<and> start_pos f \<le> start_pos c))"
proof -
  have a: "extract_formulas_by_pattern text =
      fst (foldl (gen_step (\<lambda>f. normalize_latex (latex f))
                    (\<lambda>f. 2 < length (normalize_latex (latex f)))) ([], [])
             (sort_key position (formula_candidates text)))"
    by (simp add: extract_formulas_by_pattern_def remove_duplicates_def dedup_step_gen)
  have b: "extract_formulas text =
      fst (foldl (gen_step (\<lambda>f. formula_key (p_latex f)) (\<lambda>f. True)) ([], [])
             (sort_key start_pos (pformula_candidates text)))"
    by (simp add: extract_formulas_def pdedup_step_gen)
  let ?k = "\<lambda>f :: formula. normalize_latex (latex f)"
  let ?ok = "\<lambda>f :: formula. 2 < length (normalize_latex (latex f))"
  let ?pk = "\<lambda>f :: pformula. formula_key (p_latex f)"
  let ?pok = "\<lambda>f :: pformula. True"
  have okkey: "\<And>x y. ?k x = ?k y \<Longrightarrow> ?ok x = ?ok y"
    by simp
  have pa1: "distinct (map ?k (extract_formulas_by_pattern text))"
    unfolding a by (rule dedup_props(1) [where ok = ?ok]) (rule okkey)
  have pa2: "set (extract_formulas_by_pattern text) \<subseteq> set (formula_candidates text)"
    unfolding a by (rule dedup_props(2) [where key = ?k and ok = ?ok]) (rule okkey)
  have pa3: "\<forall>f\<in>set (extract_formulas_by_pattern text). ?ok f"
    unfolding a by (rule dedup_props(3) [where key = ?k and ok = ?ok]) (rule okkey)
  have pa4: "\<forall>c\<in>set (formula_candidates text). ?ok c \<longrightarrow>
      (\<exists>f\<in>set (extract_formulas_by_pattern text). ?k f = ?k c \<and> position f \<le> position c)"
    unfolding a by (rule dedup_props(4) [where key = ?k and ok = ?ok]) (rule okkey)
  have pb1: "distinct (map ?pk (extract_formulas text))"
    unfolding b by (rule dedup_props(1) [where ok = ?pok]) simp
  have pb2: "set (extract_formulas text) \<subseteq> set (pformula_candidates text)"
    unfolding b by (rule dedup_props(2) [where key = ?pk and ok = ?pok]) simp
  have "\<forall>c\<in>set (pformula_candidates text). ?pok c \<longrightarrow>
      (\<exists>f\<in>set (extract_formulas text). ?pk f = ?pk c \<and> start_pos f \<le> start_pos c)"
    unfolding b by (rule dedup_props(4) [where key = ?pk and ok = ?pok]) simp
  then have pb4: "\<forall>c\<in>set (pformula_candidates text).
      (\<exists>f\<in>set (extract_formulas text). ?pk f = ?pk c \<and> start_pos f \<le> start_pos c)"
    by simp
  from pa1 pa2 pa3 pa4 pb1 pb2 pb4 show ?thesis
    by (intro conjI)
qed

text \<open>
  The theorem at the text \<open>"$$x + y$$ or $$X+Y$$"\<close>: the candidate at offset 13 has the
  key \<open>x+y\<close>, and the record that survives with this key lies before it.
\<close>

theorem extract_formulas_dedup_witness:
  "\<lparr>f_id = ''formula_2'', latex = ''X+Y'', f_type = ''display_math'',
     f_context = ''$$x + y$$ or $$X+Y$$'', position = 13, raw_match = ''$$X+Y$$''\<rparr>
     \<in> set (formula_candidates ''$$x + y$$ or $$X+Y$$'') \<and>
   (\<exists>f\<in>set (extract_formulas_by_pattern ''$$x + y$$ or $$X+Y$$'').
      normalize_latex (latex f) = ''x+y'' \<and> position f \<le> 13)"
proof -
  let ?T = "''$$x + y$$ or $$X+Y$$''"
  let ?c = "\<lparr>f_id = ''formula_2'', latex = ''X+Y'', f_type = ''display_math'',
     f_context = ''$$x + y$$ or $$X+Y$$'', position = 13, raw_match = ''$$X+Y$$''\<rparr>"
  have c: "?c \<in> set (formula_candidates ?T)"
    by code_simp
  have k: "normalize_latex (latex ?c) = ''x+y''"
    by code_simp
  have l: "2 < length (normalize_latex (latex ?c))"
    by code_simp
  from extract_formulas_dedup [of ?T] have
    "\<forall>c\<in>set (formula_candidates ?T). 2 < length (normalize_latex (latex c)) \<longrightarrow>
      (\<exists>f\<in>set (extract_formulas_by_pattern ?T).
         normalize_latex (latex f) = normalize_latex (latex c) \<and> position f \<le> position c)"
    by blast
  with c l have "\<exists>f\<in>set (extract_formulas_by_pattern ?T).
      normalize_latex (latex f) = normalize_latex (latex ?c) \<and> position f \<le> position ?c"
    by blast
  with k c show ?thesis
    by simp
qed

text \<open>
  Claim C4, as stated: on \<open>"The law states: $$F = ma$$ and also $F=ma$"\<close> the extractor
  returns exactly one formula. Neither extractor does.
\<close>

theorem extract_formulas_law_counterexample:
  "\<not> length (extract_formulas_by_pattern ''The law states: $$F = ma$$ and also $F=ma$'') = 1 \<and>
   \<not> length (extract_formulas ''The law states: $$F = ma$$ and also $F=ma$'') = 1"
  by code_simp

text \<open>
  Claim C4, amended: on that text each extractor returns exactly three formulas, with the
  normalized forms \<open>f=ma\<close>, \<open>f=ma$$andalso$f=ma$\<close> and \<open>andalso\<close>, at the offsets 16, 18
  and 25. Exactly one of them has the normalized form \<open>f=ma\<close>: the display formula at
  offset 16; its duplicate, which the inline pattern finds at offset 17 inside the display
  delimiters, is removed. The other two come from the assignment pattern, which runs
  from \<open>F\<close> to the end of the text, and from the inline pattern, which pairs the dollar
  signs at offsets 25 and 36.
\<close>

theorem extract_formulas_law:
  "map (\<lambda>f. (normalize_latex (latex f), position f, f_type f))
     (extract_formulas_by_pattern ''The law states: $$F = ma$$ and also $F=ma$'') =
   [(''f=ma'', 16, ''display_math''), (''f=ma$$andalso$f=ma$'', 18, ''equation''),
    (''andalso'', 25, ''inline_math'')] \<and>
   map (\<lambda>f. (normalize_latex (p_latex f), start_pos f, p_type f))
     (extract_formulas ''The law states: $$F = ma$$ and also $F=ma$'') =
   [(''f=ma'', 16, ''latex''), (''f=ma$$andalso$f=ma$'', 18, ''expression''),
    (''andalso'', 25, ''latex'')]"
  by code_simp

section \<open>Properties of the heading segmenter\<close>

text \<open>
  Claim C5, as stated: on the text of two headings the second topic has the title
  \<open>Frequency\<close>. The titles that the segmenter returns are others.
\<close>

theorem identify_structural_topics_waves_counterexample:
  "\<not> map title (projr (identify_structural_topics
       ''Chapter 1: Waves\<newline>Waves are periodic.\<newline>\<newline>Section 1.1 Frequency\<newline>Frequency is cycles per second.'')) =
     [''Waves'', ''Frequency'']"
  by code_simp

text \<open>
  Claim C5, amended: on that text the segmenter returns exactly two topics: the first with
  level 1, title \<open>Waves\<close> and no parent, the second with level 2, title \<open>1 Frequency\<close>
  and the first topic's id as its parent. The pattern \<open>^Section\s+(\d+)[:\.]?\s*(.+)$\<close>
  reads \<open>1\<close> as the number and \<open>.\<close> as the optional separator, so the title group begins
  at the second \<open>1\<close>.
\<close>

theorem identify_structural_topics_waves:
  "identify_structural_topics
     ''Chapter 1: Waves\<newline>Waves are periodic.\<newline>\<newline>Section 1.1 Frequency\<newline>Frequency is cycles per second.'' =
   Inr [\<lparr>t_id = ''topic_1'', title = ''Waves'', t_type = CHAPTER, level = 1, parent_id = None,
          content = ''Waves are periodic.'', page_range = (1, 1), keywords = []\<rparr>,
        \<lparr>t_id = ''topic_2'', title = ''1 Frequency'', t_type = SECTION, level = 2,
          parent_id = Some ''topic_1'', content = ''Frequency is cycles per second.'',
          page_range = (1, 1), keywords = []\<rparr>]"
  by code_simp

section \<open>Properties of the keyword extraction\<close>

lemma bump_map:
  "distinct ks \<Longrightarrow>
   bump (map (\<lambda>k. (k, c k)) ks) w =
     (if w \<in> set ks then map (\<lambda>k. (k, if k = w then c k + 1 else c k)) ks
      else map (\<lambda>k. (k, c k)) ks @ [(w, 1)])"
  by (induction ks) auto

lemma first_seen_snoc:
  "first_seen (ws @ [w]) = (if w \<in> set ws then first_seen ws else first_seen ws @ [w])"
  by (simp add: first_seen_def)

lemma distinct_first_seen: "distinct (first_seen ws)"
  by (simp add: first_seen_def)

lemma set_first_seen: "set (first_seen ws) = set ws"
  by (simp add: first_seen_def)

lemma foldl_bump:
  "foldl bump [] ws = map (\<lambda>k. (k, count_list ws k)) (first_seen ws)"
proof (induction ws rule: rev_induct)
  case Nil
  show ?case by (simp add: first_seen_def)
next
  case (snoc w ws)
  have "foldl bump [] (ws @ [w]) = bump (map (\<lambda>k. (k, count_list ws k)) (first_seen ws)) w"
    by (simp add: snoc.IH)
  also have "\<dots> = map (\<lambda>k. (k, count_list (ws @ [w]) k)) (first_seen (ws @ [w]))"
  proof (cases "w \<in> set ws")
    case True
    then show ?thesis
      by (simp add: bump_map distinct_first_seen set_first_seen first_seen_snoc)
  next
    case False
    then have "count_list ws w = 0"
      by (simp add: count_list_0_iff)
    moreover from False have "\<forall>k\<in>set (first_seen ws). k \<noteq> w"
      by (auto simp: set_first_seen)
    ultimately show ?thesis
      using False
      by (auto simp add: bump_map distinct_first_seen set_first_seen first_seen_snoc)
  qed
  finally show ?case .
qed

lemma insort_key_map:
  "insort_key f (g x) (map g ys) = map g (insort_key (\<lambda>y. f (g y)) x ys)"
  by (induction ys) auto

lemma sort_key_map:
  "sort_key f (map g xs) = map g (sort_key (\<lambda>y. f (g y)) xs)"
  by (induction xs) (auto simp: insort_key_map)

lemma filter_take_sorted:
  assumes mono: "\<And>x y. f x \<le> f y \<Longrightarrow> P y \<Longrightarrow> P x"
  shows "sorted (map f xs) \<Longrightarrow> filter P (take n xs) = take n (filter P xs)"
proof (induction xs arbitrary: n)
  case Nil
  show ?case by simp
next
  case (Cons x xs)
  from Cons.prems have srt: "sorted (map f xs)" and le: "\<forall>y\<in>set xs. f x \<le> f y"
    by auto
  show ?case
  proof (cases n)
    case 0
    then show ?thesis by simp
  next
    case (Suc m)
    show ?thesis
    proof (cases "P x")
      case True
      then show ?thesis
        by (simp add: Suc Cons.IH [OF srt])
    next
      case False
      have none: "\<forall>y\<in>set xs. \<not> P y"
        using False le mono by blast
      then have "filter P xs = []"
        by (simp add: filter_empty_conv)
      moreover from none have "filter P (take m xs) = []"
        by (auto simp: filter_empty_conv dest: in_set_takeD)
      ultimately show ?thesis
        using False by (simp add: Suc)
    qed
  qed
qed

text \<open>
  Claim C6, as stated: a word of exactly three letters that is no stop word and occurs more
  than once is among the keywords. \<open>cat\<close> in \<open>"cat cat"\<close> is such a word, and the
  keyword list is empty: the filter of the code keeps a word only when \<open>len(word) > 3\<close>.
\<close>

theorem extract_keywords_three_letters_counterexample:
  "re_findall0 False False word_rx (py_lower ''cat cat'') = [''cat'', ''cat''] \<and>
   ''cat'' \<notin> set stop_words \<and>
   extract_keywords ''cat cat'' = []"
  by code_simp

text \<open>
  Claim C6, amended: for every content string the keyword list is computed from the
  lowered alphabetic words of length at least 4 (the pattern finds words of length at
  least 3, and the filter drops those of length 3), with the stop words removed, counted
  by frequency, keeping only the words of frequency above 1, and returns at most the top
  ten by falling frequency, ties in first-seen order.
\<close>

theorem extract_keywords_spec:
  "extract_keywords text = keywords_spec text"
proof -
  define ws where "ws = filter (\<lambda>word. word \<notin> set stop_words \<and> length word > 3)
      (re_findall0 False False word_rx (py_lower text))"
  define cnt where "cnt = count_list ws"
  define srt where "srt = sort_key (\<lambda>k. - int (cnt k)) (first_seen ws)"
  have ws': "filter (\<lambda>w. w \<notin> set stop_words)
      (filter (\<lambda>w. 4 \<le> length w) (re_findall0 False False word_rx (py_lower text))) = ws"
    unfolding ws_def filter_filter by (rule filter_cong) auto
  have sorted_srt: "sorted (map (\<lambda>k. - int (cnt k)) srt)"
    by (simp add: srt_def)
  have mono: "\<And>x y. - int (cnt x) \<le> - int (cnt y) \<Longrightarrow> 1 < cnt y \<Longrightarrow> 1 < cnt x"
    by simp
  have "extract_keywords text =
      map fst (filter (\<lambda>x. snd x > 1) (take 10 (map (\<lambda>k. (k, cnt k)) srt)))"
    by (simp add: extract_keywords_def Let_def ws_def [symmetric] foldl_bump sort_key_map
        cnt_def srt_def)
  also have "\<dots> = filter (\<lambda>k. 1 < cnt k) (take 10 srt)"
    by (simp add: take_map filter_map comp_def)
  also have "\<dots> = take 10 (filter (\<lambda>k. 1 < cnt k) srt)"
    by (rule filter_take_sorted [where f = "\<lambda>k. - int (cnt k)"]) (use mono sorted_srt in auto)
  also have "\<dots> = take 10 (sort_key (\<lambda>k. - int (cnt k)) (filter (\<lambda>k. 1 < cnt k) (first_seen ws)))"
    by (simp add: srt_def filter_sort)
  also have "\<dots> = keywords_spec text"
    by (simp only: keywords_spec_def Let_def ws' cnt_def)
  finally show ?thesis .
qed

section \<open>Properties of the topic merger\<close>

lemma merge_into_None:
  "(\<forall>e\<in>set ms. \<not> similar c e) \<Longrightarrow> merge_into ls c ms = None"
  by (induction ms) auto

lemma merge_into_Some:
  "merge_into ls c ms = Some ms' \<Longrightarrow>
   map no_kw ms' = map no_kw ms \<and> (\<exists>e\<in>set ms. similar c e)"
proof (induction ms arbitrary: ms')
  case Nil
  then show ?case by simp
next
  case (Cons e ms)
  show ?case
  proof (cases "similar c e")
    case True
    with Cons.prems show ?thesis
      by (auto simp: no_kw_def)
  next
    case False
    with Cons.prems obtain r where r: "merge_into ls c ms = Some r" and ms': "ms' = e # r"
      by auto
    from Cons.IH [OF r] ms' show ?thesis
      by auto
  qed
qed

lemma merge_step_frame:
  "\<exists>xs. map no_kw (merge_step ls ms c) = map no_kw ms @ xs \<and>
        (xs = [] \<or> xs = [no_kw c] \<and> 3 < length (title c))"
proof (cases "merge_into ls c ms")
  case None
  then show ?thesis
    by (simp add: merge_step_def)
next
  case (Some ms')
  with merge_into_Some [OF Some] show ?thesis
    by (simp add: merge_step_def)
qed

lemma merge_topics_frame:
  "\<exists>xs. map no_kw (merge_topics ls S C) = map no_kw S @ xs \<and>
        subseq xs (map no_kw (filter (\<lambda>c. 3 < length (title c)) C))"
proof (induction C rule: rev_induct)
  case Nil
  show ?case by (simp add: merge_topics_def)
next
  case (snoc c C)
  from snoc.IH obtain xs where xs: "map no_kw (merge_topics ls S C) = map no_kw S @ xs"
    and sub: "subseq xs (map no_kw (filter (\<lambda>c. 3 < length (title c)) C))"
    by blast
  have step: "merge_topics ls S (C @ [c]) = merge_step ls (merge_topics ls S C) c"
    by (simp add: merge_topics_def)
  from merge_step_frame [of ls "merge_topics ls S C" c] obtain ys where
    ys: "map no_kw (merge_step ls (merge_topics ls S C) c) = map no_kw (merge_topics ls S C) @ ys"
    and cases: "ys = [] \<or> ys = [no_kw c] \<and> 3 < length (title c)"
    by blast
  have "subseq (xs @ ys) (map no_kw (filter (\<lambda>c. 3 < length (title c)) (C @ [c])))"
  proof (cases "ys = []")
    case True
    with sub show ?thesis
      by (simp add: subseq_order.trans [OF _ subseq_rev_drop_many [OF subseq_order.refl]])
  next
    case False
    with cases have "ys = [no_kw c]" and "3 < length (title c)"
      by auto
    with sub show ?thesis
      by (simp add: list_emb_append_mono)
  qed
  with xs ys step show ?case
    by auto
qed

lemma title_no_kw: "no_kw a = no_kw b \<Longrightarrow> title a = title b"
proof -
  assume "no_kw a = no_kw b"
  then have "title (no_kw a) = title (no_kw b)" by simp
  then show ?thesis by (simp add: no_kw_def)
qed

lemma similar_no_kw: "no_kw a = no_kw b \<Longrightarrow> similar c a = similar c b"
  using title_no_kw [of a b] by (simp add: similar_def)

lemma merge_into_first:
  "k < length ms \<Longrightarrow> similar c (ms ! k) \<Longrightarrow> (\<forall>k'<k. \<not> similar c (ms ! k')) \<Longrightarrow>
   merge_into ls c ms = Some (ms[k := (ms ! k)\<lparr>keywords := ls (keywords (ms ! k) @ keywords c)\<rparr>])"
proof (induction ms arbitrary: k)
  case Nil
  then show ?case by simp
next
  case (Cons e ms)
  show ?case
  proof (cases k)
    case 0
    with Cons.prems show ?thesis by simp
  next
    case (Suc k')
    with Cons.prems have ne: "\<not> similar c e"
      by auto
    have "merge_into ls c ms =
        Some (ms[k' := (ms ! k')\<lparr>keywords := ls (keywords (ms ! k') @ keywords c)\<rparr>])"
    proof (rule Cons.IH)
      show "k' < length ms" using Cons.prems Suc by simp
      show "similar c (ms ! k')" using Cons.prems Suc by simp
      show "\<forall>j<k'. \<not> similar c (ms ! j)"
      proof (intro allI impI)
        fix j assume "j < k'"
        then have "Suc j < k" using Suc by simp
        with Cons.prems(3) have "\<not> similar c ((e # ms) ! Suc j)" by blast
        then show "\<not> similar c (ms ! j)" by simp
      qed
    qed
    with ne Suc show ?thesis by simp
  qed
qed

lemma first_similar:
  assumes "\<exists>e\<in>set ms. similar c e"
  shows "\<exists>k<length ms. similar c (ms ! k) \<and> (\<forall>k'<k. \<not> similar c (ms ! k'))"
proof -
  from assms obtain n where n: "n < length ms \<and> similar c (ms ! n)"
    by (auto simp: in_set_conv_nth)
  define k where "k = (LEAST k. k < length ms \<and> similar c (ms ! k))"
  from n have P: "k < length ms \<and> similar c (ms ! k)"
    unfolding k_def by (rule LeastI)
  have "\<forall>k'<k. \<not> similar c (ms ! k')"
  proof (intro allI impI)
    fix k' assume lt: "k' < k"
    then have "\<not> (k' < length ms \<and> similar c (ms ! k'))"
      unfolding k_def by (rule not_less_Least)
    with lt P show "\<not> similar c (ms ! k')" by simp
  qed
  with P show ?thesis by blast
qed

lemma merge_step_none:
  "(\<forall>e\<in>set ms. \<not> similar c e) \<Longrightarrow>
   merge_step ls ms c = (if 3 < length (title c) then ms @ [c] else ms)"
  by (simp add: merge_step_def merge_into_None)

lemma merge_step_first:
  "k < length ms \<Longrightarrow> similar c (ms ! k) \<Longrightarrow> (\<forall>k'<k. \<not> similar c (ms ! k')) \<Longrightarrow>
   merge_step ls ms c = ms[k := (ms ! k)\<lparr>keywords := ls (keywords (ms ! k) @ keywords c)\<rparr>]"
  by (simp add: merge_step_def merge_into_first)

lemma kept_append: "j < length C \<Longrightarrow> kept (C @ D) j = kept C j"
proof (induction j rule: less_induct)
  case (less j)
  have "list_all (\<lambda>i. kept (C @ D) i \<longrightarrow> \<not> similar ((C @ D) ! j) ((C @ D) ! i)) [0..<j] =
      list_all (\<lambda>i. kept C i \<longrightarrow> \<not> similar (C ! j) (C ! i)) [0..<j]"
    unfolding list_all_iff
  proof (rule ball_cong [OF refl])
    fix i assume "i \<in> set [0..<j]"
    then have i: "i < j" by simp
    with less.prems have "i < length C" by simp
    with less.IH [OF i] less.prems
    show "(kept (C @ D) i \<longrightarrow> \<not> similar ((C @ D) ! j) ((C @ D) ! i)) =
        (kept C i \<longrightarrow> \<not> similar (C ! j) (C ! i))"
      by (simp add: nth_append)
  qed
  with less.prems show ?case
    by (subst (1 2) kept.simps) (simp add: nth_append)
qed

lemma kept_last:
  "kept (C @ [c]) (length C) \<longleftrightarrow>
   3 < length (title c) \<and> (\<forall>i<length C. kept C i \<longrightarrow> \<not> similar c (C ! i))"
proof -
  have "list_all (\<lambda>i. kept (C @ [c]) i \<longrightarrow> \<not> similar ((C @ [c]) ! length C) ((C @ [c]) ! i))
      [0..<length C] = (\<forall>i<length C. kept C i \<longrightarrow> \<not> similar c (C ! i))"
    unfolding list_all_iff by (auto simp: nth_append kept_append)
  then show ?thesis
    by (subst kept.simps) simp
qed

lemma kept_indices_snoc:
  "filter (kept (C @ [c])) [0..<length (C @ [c])] =
   filter (kept C) [0..<length C] @ (if kept (C @ [c]) (length C) then [length C] else [])"
proof -
  have "filter (kept (C @ [c])) [0..<length C] = filter (kept C) [0..<length C]"
    by (rule filter_cong) (simp_all add: kept_append)
  then show ?thesis by simp
qed

lemma kept_indices_props:
  shows "\<forall>i\<in>set (filter (kept C) [0..<length C]). i < length C \<and> kept C i"
    and "sorted_wrt (<) (filter (kept C) [0..<length C])"
    and "\<And>i. i < length C \<Longrightarrow> kept C i \<Longrightarrow> i \<in> set (filter (kept C) [0..<length C])"
  by (auto intro: sorted_wrt_filter)


lemma merge_topics_snoc: "merge_topics ls S (C @ [c]) = merge_step ls (merge_topics ls S C) c"
  by (simp add: merge_topics_def)

lemma merge_topics_empty_entries:
  "list_all2 (\<lambda>t i. no_kw t = no_kw (C ! i)) (merge_topics ls [] C)
     (filter (kept C) [0..<length C])"
proof (induction C rule: rev_induct)
  case Nil
  show ?case by (simp add: merge_topics_def)
next
  case (snoc c C)
  let ?out = "merge_topics ls [] C"
  let ?K = "filter (kept C) [0..<length C]"
  note Kp = kept_indices_props [where C = C]
  have IH: "list_all2 (\<lambda>t i. no_kw t = no_kw ((C @ [c]) ! i)) ?out ?K"
  proof -
    have "no_kw (?out ! k) = no_kw ((C @ [c]) ! (?K ! k))" if "k < length ?K" for k
    proof -
      from that have "?K ! k \<in> set ?K" by (rule nth_mem)
      with Kp(1) have "?K ! k < length C" by blast
      with list_all2_nthD2 [OF snoc.IH that] show ?thesis by (simp add: nth_append)
    qed
    with list_all2_lengthD [OF snoc.IH] show ?thesis
      by (simp add: list_all2_conv_all_nth)
  qed
  have len: "length ?out = length ?K"
    using snoc.IH by (rule list_all2_lengthD)
  have sim: "similar c (?out ! k) = similar c (C ! (?K ! k))" if "k < length ?K" for k
    using list_all2_nthD2 [OF snoc.IH that] by (rule similar_no_kw)
  show ?case
  proof (cases "\<exists>e\<in>set ?out. similar c e")
    case False
    have "\<forall>i<length C. kept C i \<longrightarrow> \<not> similar c (C ! i)"
    proof (intro allI impI)
      fix i assume "i < length C" and "kept C i"
      then have "i \<in> set ?K" by (rule Kp(3))
      then obtain k where k: "k < length ?K" "?K ! k = i"
        unfolding in_set_conv_nth by blast
      from k(1) len have "?out ! k \<in> set ?out"
        by simp
      with False have "\<not> similar c (?out ! k)"
        by blast
      with sim [OF k(1)] k(2) show "\<not> similar c (C ! i)" by simp
    qed
    then have kl: "kept (C @ [c]) (length C) \<longleftrightarrow> 3 < length (title c)"
      by (simp add: kept_last)
    from False have step: "merge_topics ls [] (C @ [c]) =
        (if 3 < length (title c) then ?out @ [c] else ?out)"
      by (simp add: merge_topics_snoc merge_step_none)
    show ?thesis
      unfolding step kept_indices_snoc kl using IH
      by (auto intro!: list_all2_appendI)
  next
    case True
    from first_similar [OF True] obtain k where k: "k < length ?out" "similar c (?out ! k)"
      and kmin: "\<forall>k'<k. \<not> similar c (?out ! k')"
      by blast
    from k len have kK: "k < length ?K" by simp
    then have "?K ! k \<in> set ?K" by (rule nth_mem)
    with Kp(1) have "?K ! k < length C \<and> kept C (?K ! k)"
      by blast
    moreover from k(2) sim [OF kK] have "similar c (C ! (?K ! k))" by simp
    ultimately have kl: "\<not> kept (C @ [c]) (length C)"
      unfolding kept_last by blast
    have step: "merge_topics ls [] (C @ [c]) =
        ?out[k := (?out ! k)\<lparr>keywords := ls (keywords (?out ! k) @ keywords c)\<rparr>]"
      by (simp add: merge_topics_snoc merge_step_first [OF k kmin])
    have "no_kw ((?out ! k)\<lparr>keywords := ls (keywords (?out ! k) @ keywords c)\<rparr>) =
        no_kw ((C @ [c]) ! (?K ! k))"
      using list_all2_nthD2 [OF IH kK] by (simp add: no_kw_def)
    from list_all2_update_cong [OF IH this, of k] show ?thesis
      unfolding step kept_indices_snoc using kl by simp
  qed
qed

lemma merge_topics_empty_snoc:
  fixes C :: "topic list" and ls :: "string list \<Rightarrow> string list"
  defines "out \<equiv> merge_topics ls [] C" and "K \<equiv> filter (kept C) [0..<length C]"
  shows "(\<forall>i<length C. kept C i \<longrightarrow> \<not> similar c (C ! i)) \<and>
         merge_topics ls [] (C @ [c]) = (if 3 < length (title c) then out @ [c] else out) \<or>
         (\<exists>k<length K. similar c (C ! (K ! k)) \<and> (\<forall>k'<k. \<not> similar c (C ! (K ! k'))) \<and>
            merge_topics ls [] (C @ [c]) =
              out[k := (out ! k)\<lparr>keywords := ls (keywords (out ! k) @ keywords c)\<rparr>])"
proof -
  note Kp = kept_indices_props [where C = C, folded K_def]
  have E: "list_all2 (\<lambda>t i. no_kw t = no_kw (C ! i)) out K"
    unfolding out_def K_def by (rule merge_topics_empty_entries)
  have len: "length out = length K"
    using E by (rule list_all2_lengthD)
  have sim: "similar c (out ! k) = similar c (C ! (K ! k))" if "k < length K" for k
    using list_all2_nthD2 [OF E that] by (rule similar_no_kw)
  show ?thesis
  proof (cases "\<exists>e\<in>set out. similar c e")
    case False
    have "\<forall>i<length C. kept C i \<longrightarrow> \<not> similar c (C ! i)"
    proof (intro allI impI)
      fix i assume "i < length C" and "kept C i"
      then have "i \<in> set K" by (rule Kp(3))
      then obtain k where k: "k < length K" "K ! k = i"
        unfolding in_set_conv_nth by blast
      from k(1) len have "out ! k \<in> set out"
        by simp
      with False have "\<not> similar c (out ! k)"
        by blast
      with sim [OF k(1)] k(2) show "\<not> similar c (C ! i)" by simp
    qed
    moreover from False have "merge_topics ls [] (C @ [c]) =
        (if 3 < length (title c) then out @ [c] else out)"
      by (simp add: merge_topics_snoc merge_step_none out_def)
    ultimately show ?thesis by blast
  next
    case True
    from first_similar [OF True] obtain k where k: "k < length out" "similar c (out ! k)"
      and kmin: "\<forall>k'<k. \<not> similar c (out ! k')"
      by blast
    from k len have kK: "k < length K" by simp
    have "\<forall>k'<k. \<not> similar c (C ! (K ! k'))"
    proof (intro allI impI)
      fix k' assume lt: "k' < k"
      with kK have "k' < length K" by simp
      from sim [OF this] kmin lt show "\<not> similar c (C ! (K ! k'))" by simp
    qed
    moreover from k(2) sim [OF kK] have "similar c (C ! (K ! k))" by simp
    moreover have "merge_topics ls [] (C @ [c]) =
        out[k := (out ! k)\<lparr>keywords := ls (keywords (out ! k) @ keywords c)\<rparr>]"
      by (simp add: merge_topics_snoc merge_step_first [OF k kmin] out_def [symmetric])
    ultimately show ?thesis using kK by blast
  qed
qed

lemma absorbed_into_append:
  "j < length C \<Longrightarrow> absorbed_into (C @ D) i j = absorbed_into C i j"
proof (cases "i < j")
  case False
  then show ?thesis by (simp add: absorbed_into_def)
next
  case True
  assume j: "j < length C"
  with True have i: "i < length C" by simp
  have "list_all (\<lambda>i'. kept (C @ D) i' \<longrightarrow> \<not> similar ((C @ D) ! j) ((C @ D) ! i')) [0..<i] =
      list_all (\<lambda>i'. kept C i' \<longrightarrow> \<not> similar (C ! j) (C ! i')) [0..<i]"
    unfolding list_all_iff using i j by (auto simp: nth_append kept_append)
  with i j show ?thesis
    by (simp add: absorbed_into_def nth_append kept_append)
qed

lemma absorbed_into_last:
  "absorbed_into (C @ [c]) i (length C) \<longleftrightarrow>
   i < length C \<and> kept C i \<and> similar c (C ! i) \<and> (\<forall>i'<i. kept C i' \<longrightarrow> \<not> similar c (C ! i'))"
proof (cases "i < length C")
  case False
  then show ?thesis by (simp add: absorbed_into_def)
next
  case True
  have "list_all (\<lambda>i'. kept (C @ [c]) i' \<longrightarrow>
        \<not> similar ((C @ [c]) ! length C) ((C @ [c]) ! i')) [0..<i] =
      (\<forall>i'<i. kept C i' \<longrightarrow> \<not> similar c (C ! i'))"
    unfolding list_all_iff using True by (auto simp: nth_append kept_append)
  with True show ?thesis
    by (simp add: absorbed_into_def nth_append kept_append)
qed

lemma merged_keywords_snoc:
  assumes "i < length C"
  shows "merged_keywords (C @ [c]) i =
     merged_keywords C i \<union> (if absorbed_into (C @ [c]) i (length C) then set (keywords c) else {})"
proof -
  have f: "filter (absorbed_into (C @ [c]) i) [0..<length C] =
      filter (absorbed_into C i) [0..<length C]"
    by (rule filter_cong) (simp_all add: absorbed_into_append)
  have m: "map (\<lambda>j. keywords ((C @ [c]) ! j)) (filter (absorbed_into C i) [0..<length C]) =
      map (\<lambda>j. keywords (C ! j)) (filter (absorbed_into C i) [0..<length C])"
    by (rule map_cong) (auto simp: nth_append)
  show ?thesis
    using assms by (auto simp: merged_keywords_def f m nth_append)
qed

lemma merged_keywords_last: "merged_keywords (C @ [c]) (length C) = set (keywords c)"
proof -
  have "filter (absorbed_into (C @ [c]) (length C)) [0..<length C] = []"
    by (auto simp: filter_empty_conv absorbed_into_def)
  moreover have "\<not> absorbed_into (C @ [c]) (length C) (length C)"
    by (simp add: absorbed_into_def)
  ultimately show ?thesis
    by (simp add: merged_keywords_def)
qed

lemma merge_topics_empty_keywords:
  assumes ls: "\<And>xs. set (ls xs) = set xs"
  shows "list_all2 (\<lambda>t i. set (keywords t) = merged_keywords C i) (merge_topics ls [] C)
     (filter (kept C) [0..<length C])"
proof (induction C rule: rev_induct)
  case Nil
  show ?case by (simp add: merge_topics_def)
next
  case (snoc c C)
  let ?out = "merge_topics ls [] C"
  let ?K = "filter (kept C) [0..<length C]"
  note Kp = kept_indices_props [where C = C]
  have len: "length ?out = length ?K"
    using snoc.IH by (rule list_all2_lengthD)
  have inK: "?K ! k < length C \<and> kept C (?K ! k)" if "k < length ?K" for k
  proof -
    from that have "?K ! k \<in> set ?K" by (rule nth_mem)
    with Kp(1) show ?thesis by blast
  qed
  have old: "set (keywords (?out ! k)) = merged_keywords C (?K ! k)" if "k < length ?K" for k
    using list_all2_nthD2 [OF snoc.IH that] .
  from merge_topics_empty_snoc [where C = C and c = c and ls = ls] show ?case
  proof (elim disjE conjE exE)
    assume none: "\<forall>i<length C. kept C i \<longrightarrow> \<not> similar c (C ! i)"
      and step: "merge_topics ls [] (C @ [c]) = (if 3 < length (title c) then ?out @ [c] else ?out)"
    from none have kl: "kept (C @ [c]) (length C) \<longleftrightarrow> 3 < length (title c)"
      by (simp add: kept_last)
    have keep: "list_all2 (\<lambda>t i. set (keywords t) = merged_keywords (C @ [c]) i) ?out ?K"
      unfolding list_all2_conv_all_nth
    proof (intro conjI allI impI)
      show "length ?out = length ?K" by (rule len)
    next
      fix k assume "k < length ?out"
      with len have k: "k < length ?K" by simp
      from inK [OF k] none have "\<not> absorbed_into (C @ [c]) (?K ! k) (length C)"
        by (simp add: absorbed_into_last)
      with inK [OF k] old [OF k]
      show "set (keywords (?out ! k)) = merged_keywords (C @ [c]) (?K ! k)"
        by (simp add: merged_keywords_snoc)
    qed
    show ?thesis
      unfolding step kept_indices_snoc kl using keep
      by (auto intro!: list_all2_appendI simp: merged_keywords_last)
  next
    fix k
    assume kK: "k < length ?K" and simk: "similar c (C ! (?K ! k))"
      and kmin: "\<forall>k'<k. \<not> similar c (C ! (?K ! k'))"
      and step: "merge_topics ls [] (C @ [c]) =
        ?out[k := (?out ! k)\<lparr>keywords := ls (keywords (?out ! k) @ keywords c)\<rparr>]"
    from inK [OF kK] simk have kl: "\<not> kept (C @ [c]) (length C)"
      unfolding kept_last by blast
    have mono: "?K ! a < ?K ! b" if "a < b" "b < length ?K" for a b
      using Kp(2) that by (simp add: sorted_wrt_iff_nth_less)
    have abs: "absorbed_into (C @ [c]) (?K ! k') (length C) \<longleftrightarrow> k' = k" if k': "k' < length ?K" for k'
    proof
      assume a: "absorbed_into (C @ [c]) (?K ! k') (length C)"
      then have s: "similar c (C ! (?K ! k'))"
        and m: "\<forall>i'<?K ! k'. kept C i' \<longrightarrow> \<not> similar c (C ! i')"
        unfolding absorbed_into_last by blast+
      show "k' = k"
      proof (rule ccontr)
        assume "k' \<noteq> k"
        then consider "k' < k" | "k < k'" by linarith
        then show False
        proof cases
          case 1
          with kmin s show False by blast
        next
          case 2
          from mono [OF 2 k'] m inK [OF kK] simk show False by blast
        qed
      qed
    next
      assume "k' = k"
      have "\<forall>i'<?K ! k. kept C i' \<longrightarrow> \<not> similar c (C ! i')"
      proof (intro allI impI)
        fix i' assume lt: "i' < ?K ! k" and ki: "kept C i'"
        from lt inK [OF kK] have "i' < length C" by simp
        from Kp(3) [OF this ki] obtain m where m: "m < length ?K" "?K ! m = i'"
          unfolding in_set_conv_nth by blast
        have "m < k"
        proof (rule ccontr)
          assume "\<not> m < k"
          then consider "m = k" | "k < m" by linarith
          then show False
          proof cases
            case 1
            with m lt show False by simp
          next
            case 2
            from mono [OF 2 m(1)] m(2) lt show False by simp
          qed
        qed
        with kmin m(2) show "\<not> similar c (C ! i')" by blast
      qed
      with inK [OF kK] simk \<open>k' = k\<close> show "absorbed_into (C @ [c]) (?K ! k') (length C)"
        unfolding absorbed_into_last by blast
    qed
    have "list_all2 (\<lambda>t i. set (keywords t) = merged_keywords (C @ [c]) i)
        (?out[k := (?out ! k)\<lparr>keywords := ls (keywords (?out ! k) @ keywords c)\<rparr>]) ?K"
      unfolding list_all2_conv_all_nth
    proof (intro conjI allI impI)
      show "length (?out[k := (?out ! k)\<lparr>keywords := ls (keywords (?out ! k) @ keywords c)\<rparr>]) =
          length ?K"
        using len by simp
    next
      fix k'
      assume "k' < length (?out[k := (?out ! k)\<lparr>keywords := ls (keywords (?out ! k) @ keywords c)\<rparr>])"
      with len have k': "k' < length ?K" by simp
      show "set (keywords
          (?out[k := (?out ! k)\<lparr>keywords := ls (keywords (?out ! k) @ keywords c)\<rparr>] ! k')) =
          merged_keywords (C @ [c]) (?K ! k')"
      proof (cases "k' = k")
        case True
        with abs [OF k'] inK [OF kK] old [OF kK] kK len show ?thesis
          by (simp add: merged_keywords_snoc ls)
      next
        case False
        with abs [OF k'] inK [OF k'] old [OF k'] k' len show ?thesis
          by (simp add: merged_keywords_snoc)
      qed
    qed
    then show ?thesis
      unfolding step kept_indices_snoc using kl by simp
  qed
qed

lemma list_all2_map_eq: "list_all2 (\<lambda>x y. f x = g y) xs ys \<Longrightarrow> map f xs = map g ys"
  by (induction rule: list_all2_induct) auto

lemma merge_topics_prefix_no_kw:
  assumes "k < length S"
  shows "k < length (merge_topics ls S C) \<and> no_kw (merge_topics ls S C ! k) = no_kw (S ! k)"
proof -
  from merge_topics_frame [of ls S C] obtain xs where
    xs: "map no_kw (merge_topics ls S C) = map no_kw S @ xs"
    by blast
  from xs have "length (merge_topics ls S C) = length S + length xs"
    by (metis length_append length_map)
  with assms have k: "k < length (merge_topics ls S C)"
    by simp
  from xs have "map no_kw (merge_topics ls S C) ! k = (map no_kw S @ xs) ! k"
    by simp
  with assms k show ?thesis
    by (simp add: nth_append)
qed

lemma merge_topics_structural_unchanged:
  assumes i: "i < length S"
    and nodup: "\<forall>c\<in>set C. \<not> (similar c (S ! i) \<and> (\<forall>i'<i. \<not> similar c (S ! i')))"
  shows "merge_topics ls S C ! i = S ! i"
  using nodup
proof (induction C rule: rev_induct)
  case Nil
  show ?case by (simp add: merge_topics_def)
next
  case (snoc c C)
  let ?out = "merge_topics ls S C"
  from snoc have IH: "?out ! i = S ! i"
    and c: "\<not> (similar c (S ! i) \<and> (\<forall>i'<i. \<not> similar c (S ! i')))"
    by auto
  have iout: "i < length ?out"
    using merge_topics_prefix_no_kw [OF i] by blast
  have sim: "similar c (?out ! k) = similar c (S ! k)" if "k < length S" for k
    by (rule similar_no_kw) (use merge_topics_prefix_no_kw [OF that, of ls C] in blast)
  show ?case
  proof (cases "\<exists>e\<in>set ?out. similar c e")
    case False
    then have "merge_topics ls S (C @ [c]) = (if 3 < length (title c) then ?out @ [c] else ?out)"
      by (simp add: merge_topics_snoc merge_step_none)
    with iout IH show ?thesis
      by (simp add: nth_append)
  next
    case True
    from first_similar [OF True] obtain k where k: "k < length ?out" "similar c (?out ! k)"
      and kmin: "\<forall>k'<k. \<not> similar c (?out ! k')"
      by blast
    have "k \<noteq> i"
    proof
      assume ki: "k = i"
      with k(2) sim [OF i] have "similar c (S ! i)" by simp
      moreover have "\<forall>i'<i. \<not> similar c (S ! i')"
      proof (intro allI impI)
        fix i' assume lt: "i' < i"
        with i have "i' < length S" by simp
        from sim [OF this] kmin lt ki show "\<not> similar c (S ! i')" by simp
      qed
      ultimately show False using c by blast
    qed
    moreover have "merge_topics ls S (C @ [c]) =
        ?out[k := (?out ! k)\<lparr>keywords := ls (keywords (?out ! k) @ keywords c)\<rparr>]"
      by (simp add: merge_topics_snoc merge_step_first [OF k kmin])
    ultimately show ?thesis
      using IH by simp
  qed
qed

text \<open>
  Claim C10: the topics of \<open>S\<close> are the first \<open>|S|\<close> topics of the merger's output, in
  their order and unchanged in every field but \<open>keywords\<close>; what follows them are
  candidates of \<open>C\<close>, in the order of \<open>C\<close>; and the structural topic at index \<open>i\<close>
  keeps its keywords too, unless a candidate is judged a duplicate of it, which is when it
  is the first structural topic that the candidate is similar to.
\<close>

theorem merge_topics_structural_prefix:
  "map no_kw (take (length S) (merge_topics list_set S C)) = map no_kw S \<and>
   subseq (map no_kw (drop (length S) (merge_topics list_set S C))) (map no_kw C) \<and>
   (\<forall>i<length S.
      (\<forall>c\<in>set C. \<not> (similar c (S ! i) \<and> (\<forall>i'<i. \<not> similar c (S ! i')))) \<longrightarrow>
      merge_topics list_set S C ! i = S ! i)"
proof -
  from merge_topics_frame [of list_set S C] obtain xs where
    xs: "map no_kw (merge_topics list_set S C) = map no_kw S @ xs"
    and sub: "subseq xs (map no_kw (filter (\<lambda>c. 3 < length (title c)) C))"
    by blast
  from xs have a: "map no_kw (take (length S) (merge_topics list_set S C)) = map no_kw S"
    by (metis append_eq_conv_conj length_map take_map)
  from xs have "map no_kw (drop (length S) (merge_topics list_set S C)) = xs"
    by (metis append_eq_conv_conj length_map drop_map)
  moreover have "subseq (map no_kw (filter (\<lambda>c. 3 < length (title c)) C)) (map no_kw C)"
    by (simp add: subseq_map)
  ultimately have b: "subseq (map no_kw (drop (length S) (merge_topics list_set S C))) (map no_kw C)"
    using sub by (metis subseq_order.trans)
  have c: "\<forall>i<length S.
      (\<forall>c\<in>set C. \<not> (similar c (S ! i) \<and> (\<forall>i'<i. \<not> similar c (S ! i')))) \<longrightarrow>
      merge_topics list_set S C ! i = S ! i"
    by (intro allI impI) (rule merge_topics_structural_unchanged)
  from a b c show ?thesis
    by (intro conjI)
qed

text \<open>
  The theorem at two structural topics and a candidate that is a duplicate of the first:
  the second structural topic is returned as it was.
\<close>

theorem merge_topics_structural_prefix_witness:
  "merge_topics remdups
     [ai_topic ''topic_1'' ''Wave Motion'' [''wave''], ai_topic ''topic_2'' ''Sound'' [''tone'']]
     [ai_topic ''ai_topic_0_0'' ''wave motion'' [''motion'']] ! 1 =
   ai_topic ''topic_2'' ''Sound'' [''tone'']"
proof -
  let ?S = "[ai_topic ''topic_1'' ''Wave Motion'' [''wave''], ai_topic ''topic_2'' ''Sound'' [''tone'']]"
  let ?C = "[ai_topic ''ai_topic_0_0'' ''wave motion'' [''motion'']]"
  have "\<forall>c\<in>set ?C. \<not> similar c (?S ! 1)"
    by code_simp
  then have h: "\<forall>c\<in>set ?C. \<not> (similar c (?S ! 1) \<and> (\<forall>i'<1. \<not> similar c (?S ! i')))"
    by blast
  have l: "1 < length ?S"
    by simp
  from merge_topics_structural_prefix [of ?S remdups ?C]
  have "\<forall>i<length ?S.
      (\<forall>c\<in>set ?C. \<not> (similar c (?S ! i) \<and> (\<forall>i'<i. \<not> similar c (?S ! i')))) \<longrightarrow>
      merge_topics remdups ?S ?C ! i = ?S ! i"
    by blast
  with l h have "merge_topics remdups ?S ?C ! 1 = ?S ! 1"
    by blast
  then show ?thesis
    by simp
qed

text \<open>
  Claim C7, as stated: merging with an empty structural list returns every candidate whose
  title has more than three characters, each as an entry of its own. Two candidates with
  the same title are one entry of the output: the second is compared with the first,
  which the merger has already appended, and is absorbed into it.
\<close>

theorem merge_topics_empty_counterexample:
  "3 < length (title (ai_topic ''ai_topic_0_0'' ''Wave Motion'' [''wave''])) \<and>
   3 < length (title (ai_topic ''ai_topic_0_1'' ''Wave Motion'' [''motion''])) \<and>
   merge_topics remdups []
     [ai_topic ''ai_topic_0_0'' ''Wave Motion'' [''wave''],
      ai_topic ''ai_topic_0_1'' ''Wave Motion'' [''motion'']] =
   [ai_topic ''ai_topic_0_0'' ''Wave Motion'' [''wave'', ''motion'']]"
  by code_simp

text \<open>
  Claim C7, amended: for every candidate list, merging with an empty structural list
  returns, in the order of the candidates and up to their keywords, exactly the kept
  candidates: a candidate is kept when its title has more than three characters and it is
  similar (similarity above 0.7 on the lowered titles) to no kept candidate before it. A
  candidate that is similar to a kept candidate before it is no entry of its own; it is
  absorbed into the first such candidate, whose keywords in the output are, as a set, its
  own with those of the candidates absorbed into it (given that \<open>list(set(xs))\<close> lists
  the elements of \<open>xs\<close>). So every entry is a candidate whose title has more than three
  characters; and when no candidate is similar to a candidate before it, the result is
  exactly the list of the candidates whose title has more than three characters, each
  unchanged and an entry of its own.
\<close>

theorem merge_topics_empty:
  "map no_kw (merge_topics list_set [] C) =
     map (\<lambda>i. no_kw (C ! i)) (filter (kept C) [0..<length C]) \<and>
   ((\<forall>xs. set (list_set xs) = set xs) \<longrightarrow>
      map (\<lambda>t. set (keywords t)) (merge_topics list_set [] C) =
        map (merged_keywords C) (filter (kept C) [0..<length C])) \<and>
   subseq (map no_kw (merge_topics list_set [] C))
     (map no_kw (filter (\<lambda>c. 3 < length (title c)) C)) \<and>
   ((\<forall>j<length C. \<forall>i<j. \<not> similar (C ! j) (C ! i)) \<longrightarrow>
      merge_topics list_set [] C = filter (\<lambda>c. 3 < length (title c)) C)"
proof -
  have e: "map no_kw (merge_topics list_set [] C) =
      map (\<lambda>i. no_kw (C ! i)) (filter (kept C) [0..<length C])"
    by (rule list_all2_map_eq) (rule merge_topics_empty_entries)
  have k: "map (\<lambda>t. set (keywords t)) (merge_topics list_set [] C) =
      map (merged_keywords C) (filter (kept C) [0..<length C])"
    if "\<forall>xs. set (list_set xs) = set xs"
    by (rule list_all2_map_eq) (rule merge_topics_empty_keywords, use that in simp)
  from merge_topics_frame [of list_set "[]" C] have a:
    "subseq (map no_kw (merge_topics list_set [] C))
       (map no_kw (filter (\<lambda>c. 3 < length (title c)) C))"
    by auto
  have b: "(\<forall>j<length C. \<forall>i<j. \<not> similar (C ! j) (C ! i)) \<Longrightarrow>
      merge_topics list_set [] C = filter (\<lambda>c. 3 < length (title c)) C"
  proof (induction C rule: rev_induct)
    case Nil
    show ?case by (simp add: merge_topics_def)
  next
    case (snoc c C)
    have "\<forall>j<length C. \<forall>i<j. \<not> similar (C ! j) (C ! i)"
    proof (intro allI impI)
      fix j i assume j: "j < length C" and i: "i < j"
      with snoc.prems have "\<not> similar ((C @ [c]) ! j) ((C @ [c]) ! i)"
        by simp
      with j i show "\<not> similar (C ! j) (C ! i)"
        by (simp add: nth_append)
    qed
    with snoc.IH have IH: "merge_topics list_set [] C = filter (\<lambda>c. 3 < length (title c)) C"
      by blast
    have "\<forall>e\<in>set C. \<not> similar c e"
    proof
      fix e assume "e \<in> set C"
      then obtain i where i: "i < length C" and e: "e = C ! i"
        by (auto simp: in_set_conv_nth)
      from snoc.prems [rule_format, of "length C" i] i
      have "\<not> similar ((C @ [c]) ! length C) ((C @ [c]) ! i)"
        by simp
      with i e show "\<not> similar c e"
        by (simp add: nth_append)
    qed
    then have "merge_into list_set c (filter (\<lambda>c. 3 < length (title c)) C) = None"
      by (intro merge_into_None) auto
    then show ?case
      by (simp add: merge_topics_def merge_step_def IH [unfolded merge_topics_def])
  qed
  from e k a b show ?thesis
    by blast
qed

text \<open>
  The theorem at four candidates, the third a duplicate of the first, and at three
  candidates with titles that share no word.
\<close>

theorem merge_topics_empty_witness:
  "map (\<lambda>t. set (keywords t))
     (merge_topics remdups []
        [ai_topic ''ai_topic_0_0'' ''Wave Motion'' [''wave''], ai_topic ''ai_topic_0_1'' ''Ray'' [],
         ai_topic ''ai_topic_0_2'' ''wave motion'' [''motion''],
         ai_topic ''ai_topic_0_3'' ''Sound'' [''tone'']]) =
     [{''wave'', ''motion''}, {''tone''}] \<and>
   merge_topics remdups []
     [ai_topic ''ai_topic_0_0'' ''Sound'' [''tone''], ai_topic ''ai_topic_0_1'' ''Ray'' [],
      ai_topic ''ai_topic_0_2'' ''Wave Motion'' [''wave'']] =
   [ai_topic ''ai_topic_0_0'' ''Sound'' [''tone''],
    ai_topic ''ai_topic_0_2'' ''Wave Motion'' [''wave'']]"
proof -
  let ?D = "[ai_topic ''ai_topic_0_0'' ''Wave Motion'' [''wave''], ai_topic ''ai_topic_0_1'' ''Ray'' [],
         ai_topic ''ai_topic_0_2'' ''wave motion'' [''motion''],
         ai_topic ''ai_topic_0_3'' ''Sound'' [''tone'']]"
  let ?C = "[ai_topic ''ai_topic_0_0'' ''Sound'' [''tone''], ai_topic ''ai_topic_0_1'' ''Ray'' [],
      ai_topic ''ai_topic_0_2'' ''Wave Motion'' [''wave'']]"
  have ls: "\<forall>xs :: string list. set (remdups xs) = set xs"
    by simp
  have K: "filter (kept ?D) [0..<length ?D] = [0, 3]"
    by code_simp
  have mk: "map (merged_keywords ?D) [0, 3] = [{''wave'', ''motion''}, {''tone''}]"
    by code_simp
  from merge_topics_empty [of remdups ?D] ls
  have "map (\<lambda>t. set (keywords t)) (merge_topics remdups [] ?D) =
      map (merged_keywords ?D) (filter (kept ?D) [0..<length ?D])"
    by blast
  then have d: "map (\<lambda>t. set (keywords t)) (merge_topics remdups [] ?D) =
      [{''wave'', ''motion''}, {''tone''}]"
    unfolding K mk .
  have "list_all (\<lambda>j. list_all (\<lambda>i. \<not> similar (?C ! j) (?C ! i)) [0..<j]) [0..<length ?C]"
    by code_simp
  then have h: "\<forall>j<length ?C. \<forall>i<j. \<not> similar (?C ! j) (?C ! i)"
    unfolding list_all_iff by (metis atLeastLessThan_iff set_upt zero_le)
  have f: "filter (\<lambda>c. 3 < length (title c)) ?C =
      [ai_topic ''ai_topic_0_0'' ''Sound'' [''tone''], ai_topic ''ai_topic_0_2'' ''Wave Motion'' [''wave'']]"
    by code_simp
  from merge_topics_empty [of remdups ?C] h
  have "merge_topics remdups [] ?C = filter (\<lambda>c. 3 < length (title c)) ?C"
    by blast
  with f d show ?thesis
    by simp
qed

section \<open>Properties of the heading segmenter on every text\<close>

subsection \<open>The segmenter never raises\<close>

lemma title_of_error: "title_of ty gs w = Inl e \<Longrightarrow> e = IndexError"
  by (auto simp: title_of_def split: if_splits list.splits)

lemma match_block_error: "match_block lines n line st m lvl ty = Inl e \<Longrightarrow> e = IndexError"
  by (auto simp: match_block_def split: sum.splits dest: title_of_error)

lemma try_patterns_total: "\<exists>st'. try_patterns lines n line st ps = Inr st'"
proof (induction ps)
  case Nil
  show ?case by simp
next
  case (Cons p ps)
  obtain pattern lvl ty where p: "p = (pattern, lvl, ty)"
    by (cases p)
  show ?case
  proof (cases "re_match True False pattern line")
    case None
    with Cons.IH show ?thesis by (simp add: p)
  next
    case (Some m)
    show ?thesis
    proof (cases "match_block lines n line st m lvl ty")
      case (Inl e)
      with match_block_error [OF Inl] Cons.IH Some show ?thesis
        by (simp add: p)
    next
      case (Inr st')
      with Some show ?thesis by (simp add: p)
    qed
  qed
qed

lemma page_block_error: "page_block line st = Inl e \<Longrightarrow> e = ValueError"
  by (auto simp: page_block_def py_int_def split: option.splits sum.splits if_splits)

lemma line_step_total: "\<exists>st'. line_step ps lines st x = Inr st'"
proof (cases x)
  case (Pair n raw)
  show ?thesis
  proof (cases "py_startswith (py_strip raw) ''--- Page ''")
    case True
    then show ?thesis
      by (cases "page_block (py_strip raw) st")
        (auto simp: line_step_def Pair Let_def dest: page_block_error)
  next
    case False
    with try_patterns_total [of lines n "py_strip raw" st ps] show ?thesis
      by (auto simp: line_step_def Pair Let_def)
  qed
qed

lemma lines_loop_total: "\<exists>st'. lines_loop ps lines st xs = Inr st'"
proof (induction xs arbitrary: st)
  case Nil
  show ?case by simp
next
  case (Cons x xs)
  from line_step_total [of ps lines st x] obtain st1 where "line_step ps lines st x = Inr st1"
    by blast
  with Cons.IH [of st1] show ?case by simp
qed

lemma identify_structural_topics_total: "\<exists>ts. identify_structural_topics text = Inr ts"
proof -
  let ?lines = "py_split text ''\<newline>''"
  from lines_loop_total obtain st' where
    "lines_loop heading_patterns ?lines \<lparr>topics = [], topic_id = 1, current_page = 1\<rparr>
       (zip [0..<length ?lines] ?lines) = Inr st'"
    by blast
  then show ?thesis
    by (simp add: identify_structural_topics_def Let_def)
qed

subsection \<open>Text without headings\<close>

lemma try_patterns_no_match:
  "(\<forall>p\<in>set ps. re_match True False (fst p) line = None) \<Longrightarrow>
   try_patterns lines n line st ps = Inr st"
  by (induction ps) auto

lemma page_block_topics: "page_block line st = Inr st' \<Longrightarrow> topics st' = topics st"
  by (auto simp: page_block_def split: option.splits sum.splits)

lemma line_step_no_match:
  assumes "\<forall>p\<in>set ps. re_match True False (fst p) (py_strip (snd x)) = None"
  shows "\<exists>st'. line_step ps lines st x = Inr st' \<and> topics st' = topics st"
proof (cases x)
  case (Pair n raw)
  show ?thesis
  proof (cases "py_startswith (py_strip raw) ''--- Page ''")
    case True
    then show ?thesis
      by (cases "page_block (py_strip raw) st")
        (auto simp: line_step_def Pair Let_def dest: page_block_error page_block_topics)
  next
    case False
    with try_patterns_no_match [of ps "py_strip raw" lines n st] assms show ?thesis
      by (auto simp: line_step_def Pair Let_def)
  qed
qed

lemma lines_loop_no_match:
  "(\<forall>x\<in>set xs. \<forall>p\<in>set ps. re_match True False (fst p) (py_strip (snd x)) = None) \<Longrightarrow>
   \<exists>st'. lines_loop ps lines st xs = Inr st' \<and> topics st' = topics st"
proof (induction xs arbitrary: st)
  case Nil
  show ?case by simp
next
  case (Cons x xs)
  from Cons.prems line_step_no_match [of ps x lines st] obtain st1 where
    s1: "line_step ps lines st x = Inr st1" and t1: "topics st1 = topics st"
    by auto
  from Cons.IH [of st1] Cons.prems obtain st' where
    "lines_loop ps lines st1 xs = Inr st'" and "topics st' = topics st1"
    by auto
  with s1 t1 show ?case by simp
qed

lemma set_parent_relationships_Nil: "set_parent_relationships [] = []"
  by (simp add: set_parent_relationships_def)

lemma identify_structural_topics_no_match:
  assumes "\<forall>line\<in>set (py_split text ''\<newline>''). \<forall>p\<in>set heading_patterns.
      re_match True False (fst p) (py_strip line) = None"
  shows "identify_structural_topics text = Inr []"
proof -
  let ?lines = "py_split text ''\<newline>''"
  have "\<forall>x\<in>set (zip [0..<length ?lines] ?lines). \<forall>p\<in>set heading_patterns.
      re_match True False (fst p) (py_strip (snd x)) = None"
  proof (intro ballI)
    fix x p assume x: "x \<in> set (zip [0..<length ?lines] ?lines)" and p: "p \<in> set heading_patterns"
    have "snd x \<in> set ?lines"
      using x by (metis prod.collapse set_zip_rightD)
    with assms p show "re_match True False (fst p) (py_strip (snd x)) = None"
      by blast
  qed
  from lines_loop_no_match [OF this] obtain st' where
    "lines_loop heading_patterns ?lines \<lparr>topics = [], topic_id = 1, current_page = 1\<rparr>
       (zip [0..<length ?lines] ?lines) = Inr st'" and "topics st' = []"
    by force
  then show ?thesis
    by (simp add: identify_structural_topics_def Let_def set_parent_relationships_Nil)
qed

lemma extract_formulas_by_pattern_no_match:
  assumes "\<forall>p\<in>set formula_patterns. re_finditer True True (fst p) text = []"
  shows "extract_formulas_by_pattern text = []"
proof -
  have "foldl (pattern_step text) st ps = st" if "\<forall>p\<in>set ps. re_finditer True True (fst p) text = []"
    for st ps
    using that by (induction ps arbitrary: st) (auto simp: pattern_step_def split: prod.splits)
  from this [OF assms] have "formula_candidates text = []"
    by (simp add: formula_candidates_def)
  then show ?thesis
    by (simp add: extract_formulas_by_pattern_def remove_duplicates_def)
qed

text \<open>
  Claim C9: for every input string the heading segmenter returns a list and raises
  nothing (the errors that its two \<open>try\<close> blocks can raise are the ones their \<open>except\<close>
  clauses catch); the pattern-based formula extractor, which has no operation that can
  raise, returns a list; on the empty string, and on every text in which no heading
  pattern matches a line and no formula pattern matches, the two lists are empty.
\<close>

theorem no_structure_empty_lists:
  "(\<exists>ts. identify_structural_topics text = Inr ts) \<and>
   identify_structural_topics [] = Inr [] \<and>
   extract_formulas_by_pattern [] = [] \<and>
   ((\<forall>line\<in>set (py_split text ''\<newline>''). \<forall>p\<in>set heading_patterns.
       re_match True False (fst p) (py_strip line) = None) \<longrightarrow>
    identify_structural_topics text = Inr []) \<and>
   ((\<forall>p\<in>set formula_patterns. re_finditer True True (fst p) text = []) \<longrightarrow>
    extract_formulas_by_pattern text = [])"
proof -
  have a: "identify_structural_topics [] = Inr []"
    by code_simp
  have b: "extract_formulas_by_pattern [] = []"
    by code_simp
  note c = identify_structural_topics_total [of "text"]
  note d = identify_structural_topics_no_match [of "text"]
  note e = extract_formulas_by_pattern_no_match [of "text"]
  from a b c d e show ?thesis
    by blast
qed

text \<open>The theorem at a text of plain words.\<close>

theorem no_structure_empty_lists_witness:
  "identify_structural_topics ''plain words only'' = Inr [] \<and>
   extract_formulas_by_pattern ''plain words only'' = []"
proof -
  have h1: "\<forall>line\<in>set (py_split ''plain words only'' ''\<newline>''). \<forall>p\<in>set heading_patterns.
       re_match True False (fst p) (py_strip line) = None"
    by code_simp
  have h2: "\<forall>p\<in>set formula_patterns. re_finditer True True (fst p) ''plain words only'' = []"
    by code_simp
  from no_structure_empty_lists [of "''plain words only''"] h1 h2 show ?thesis
    by blast
qed

subsection \<open>Identifiers\<close>

lemma digit_char_inj: "a < 10 \<Longrightarrow> b < 10 \<Longrightarrow> digit_char a = digit_char b \<Longrightarrow> a = b"
  by (simp add: digit_char_def char_of_eq_iff take_bit_eq_mod)

lemma py_str_nat_nonempty: "py_str_nat n \<noteq> []"
  by (subst py_str_nat.simps) simp

lemma py_str_nat_inj: "py_str_nat m = py_str_nat n \<Longrightarrow> m = n"
proof (induction m arbitrary: n rule: py_str_nat.induct)
  case (1 m)
  show ?case
  proof (cases "m < 10")
    case True
    then have m: "py_str_nat m = [digit_char m]"
      by (subst py_str_nat.simps) simp
    show ?thesis
    proof (cases "n < 10")
      case n: True
      then have "py_str_nat n = [digit_char n]"
        by (subst py_str_nat.simps) simp
      with m "1.prems" True n show ?thesis
        by (auto dest: digit_char_inj)
    next
      case n: False
      then have "py_str_nat n = py_str_nat (n div 10) @ [digit_char (n mod 10)]"
        by (subst py_str_nat.simps) simp
      with m "1.prems" py_str_nat_nonempty [of "n div 10"] show ?thesis
        by (cases "py_str_nat (n div 10)") auto
    qed
  next
    case False
    then have m: "py_str_nat m = py_str_nat (m div 10) @ [digit_char (m mod 10)]"
      by (subst py_str_nat.simps) simp
    show ?thesis
    proof (cases "n < 10")
      case n: True
      then have "py_str_nat n = [digit_char n]"
        by (subst py_str_nat.simps) simp
      with m "1.prems" py_str_nat_nonempty [of "m div 10"] show ?thesis
        by (cases "py_str_nat (m div 10)") auto
    next
      case n: False
      then have "py_str_nat n = py_str_nat (n div 10) @ [digit_char (n mod 10)]"
        by (subst py_str_nat.simps) simp
      with m "1.prems" have eq: "py_str_nat (m div 10) = py_str_nat (n div 10)"
        and d: "digit_char (m mod 10) = digit_char (n mod 10)"
        by auto
      from "1.IH" [OF False eq] have "m div 10 = n div 10" .
      moreover have "m mod 10 = n mod 10"
        using d digit_char_inj [of "m mod 10" "n mod 10"] by simp
      ultimately show ?thesis
        by (metis div_mult_mod_eq)
    qed
  qed
qed

lemma distinct_topic_ids: "distinct (map (\<lambda>k. ''topic_'' @ py_str_nat k) [a..<b])"
  by (auto simp: distinct_map intro!: inj_onI dest: py_str_nat_inj)

subsection \<open>What the loop of the segmenter keeps\<close>

lemma add_topic_inv: "seg_inv st \<Longrightarrow> seg_inv (add_topic lines n st ttl lvl ty)"
  by (auto simp: seg_inv_def add_topic_def Let_def)

lemma match_block_inv:
  "seg_inv st \<Longrightarrow> match_block lines n line st m lvl ty = Inr st' \<Longrightarrow> seg_inv st'"
  by (auto simp: match_block_def split: sum.splits if_splits intro: add_topic_inv)

lemma try_patterns_inv:
  "seg_inv st \<Longrightarrow> try_patterns lines n line st ps = Inr st' \<Longrightarrow> seg_inv st'"
proof (induction ps)
  case Nil
  then show ?case by simp
next
  case (Cons p ps)
  obtain pattern lvl ty where p: "p = (pattern, lvl, ty)"
    by (cases p)
  from Cons show ?case
    by (auto simp: p split: option.splits sum.splits if_splits dest: match_block_inv)
qed

lemma page_block_inv: "seg_inv st \<Longrightarrow> page_block line st = Inr st' \<Longrightarrow> seg_inv st'"
  by (auto simp: page_block_def seg_inv_def split: option.splits sum.splits)

lemma line_step_inv: "seg_inv st \<Longrightarrow> line_step ps lines st x = Inr st' \<Longrightarrow> seg_inv st'"
  by (cases x)
    (auto simp: line_step_def Let_def split: sum.splits if_splits
      dest: page_block_inv try_patterns_inv)

lemma lines_loop_inv: "seg_inv st \<Longrightarrow> lines_loop ps lines st xs = Inr st' \<Longrightarrow> seg_inv st'"
proof (induction xs arbitrary: st)
  case Nil
  then show ?case by simp
next
  case (Cons x xs)
  then show ?case
    by (auto split: sum.splits dest: line_step_inv)
qed

subsection \<open>The parent links\<close>

lemma scan_back_cong:
  "(\<forall>k<j. level (a ! k) = level (b ! k) \<and> t_id (a ! k) = t_id (b ! k)) \<Longrightarrow>
   scan_back a lvl j = scan_back b lvl j"
  by (induction j) auto

lemma scan_back_None:
  "scan_back ts lvl i = None \<longleftrightarrow> (\<forall>j<i. \<not> level (ts ! j) < lvl)"
  by (induction i) (auto simp: less_Suc_eq)

lemma scan_back_Some:
  "scan_back ts lvl i = Some p \<longleftrightarrow>
   (\<exists>j<i. level (ts ! j) < lvl \<and> p = t_id (ts ! j) \<and> (\<forall>k. j < k \<and> k < i \<longrightarrow> \<not> level (ts ! k) < lvl))"
proof (induction i)
  case 0
  show ?case by simp
next
  case (Suc i)
  show ?case
  proof (cases "level (ts ! i) < lvl")
    case True
    have "(\<exists>j<Suc i. level (ts ! j) < lvl \<and> p = t_id (ts ! j) \<and>
        (\<forall>k. j < k \<and> k < Suc i \<longrightarrow> \<not> level (ts ! k) < lvl)) \<longleftrightarrow> p = t_id (ts ! i)"
    proof
      assume "\<exists>j<Suc i. level (ts ! j) < lvl \<and> p = t_id (ts ! j) \<and>
        (\<forall>k. j < k \<and> k < Suc i \<longrightarrow> \<not> level (ts ! k) < lvl)"
      then obtain j where j: "j < Suc i" "p = t_id (ts ! j)"
        and no: "\<forall>k. j < k \<and> k < Suc i \<longrightarrow> \<not> level (ts ! k) < lvl"
        by blast
      from no True j(1) have "j = i"
        by (metis less_Suc_eq lessI)
      with j show "p = t_id (ts ! i)" by simp
    next
      assume "p = t_id (ts ! i)"
      with True show "\<exists>j<Suc i. level (ts ! j) < lvl \<and> p = t_id (ts ! j) \<and>
        (\<forall>k. j < k \<and> k < Suc i \<longrightarrow> \<not> level (ts ! k) < lvl)"
        by (intro exI [of _ i]) auto
    qed
    with True show ?thesis by auto
  next
    case False
    have "(\<exists>j<Suc i. level (ts ! j) < lvl \<and> p = t_id (ts ! j) \<and>
        (\<forall>k. j < k \<and> k < Suc i \<longrightarrow> \<not> level (ts ! k) < lvl)) \<longleftrightarrow>
      (\<exists>j<i. level (ts ! j) < lvl \<and> p = t_id (ts ! j) \<and>
        (\<forall>k. j < k \<and> k < i \<longrightarrow> \<not> level (ts ! k) < lvl))"
      using False by (metis less_Suc_eq)
    with False Suc.IH show ?thesis by simp
  qed
qed

lemma set_parent_from_props:
  "length (set_parent_from i ts) = length ts \<and>
   (\<forall>k<length ts.
      level (set_parent_from i ts ! k) = level (ts ! k) \<and>
      t_id (set_parent_from i ts ! k) = t_id (ts ! k) \<and>
      parent_id (set_parent_from i ts ! k) =
        (if k < i then parent_id (ts ! k)
         else case scan_back ts (level (ts ! k)) k of
                None \<Rightarrow> parent_id (ts ! k) | Some p \<Rightarrow> Some p))"
proof (induction i ts rule: set_parent_from.induct)
  case (1 i ts)
  show ?case
  proof (cases "i < length ts")
    case False
    then show ?thesis
      by (subst (1 2 3 4) set_parent_from.simps) simp
  next
    case True
    define ts' where "ts' = (case scan_back ts (level (ts ! i)) i of
        None \<Rightarrow> ts | Some p \<Rightarrow> ts[i := (ts ! i)\<lparr>parent_id := Some p\<rparr>])"
    have unf: "set_parent_from i ts = set_parent_from (Suc i) ts'"
      using True by (subst set_parent_from.simps) (simp add: ts'_def)
    have len: "length ts' = length ts"
      by (simp add: ts'_def split: option.splits)
    have same: "\<forall>k<length ts. level (ts' ! k) = level (ts ! k) \<and> t_id (ts' ! k) = t_id (ts ! k)"
      using True by (auto simp: ts'_def nth_list_update split: option.splits)
    have par: "\<forall>k<length ts. parent_id (ts' ! k) =
        (if k = i then (case scan_back ts (level (ts ! i)) i of
                          None \<Rightarrow> parent_id (ts ! i) | Some p \<Rightarrow> Some p)
         else parent_id (ts ! k))"
      using True by (auto simp: ts'_def nth_list_update split: option.splits)
    have sb: "\<forall>k<length ts. scan_back ts' (level (ts' ! k)) k = scan_back ts (level (ts ! k)) k"
    proof (intro allI impI)
      fix k assume k: "k < length ts"
      have "scan_back ts' (level (ts' ! k)) k = scan_back ts (level (ts' ! k)) k"
        by (rule scan_back_cong) (use same k in auto)
      with same k show "scan_back ts' (level (ts' ! k)) k = scan_back ts (level (ts ! k)) k"
        by simp
    qed
    from "1.IH" [OF True, folded ts'_def] have IH:
      "length (set_parent_from (Suc i) ts') = length ts'"
      "\<forall>k<length ts'.
        level (set_parent_from (Suc i) ts' ! k) = level (ts' ! k) \<and>
        t_id (set_parent_from (Suc i) ts' ! k) = t_id (ts' ! k) \<and>
        parent_id (set_parent_from (Suc i) ts' ! k) =
          (if k < Suc i then parent_id (ts' ! k)
           else case scan_back ts' (level (ts' ! k)) k of
                  None \<Rightarrow> parent_id (ts' ! k) | Some p \<Rightarrow> Some p)"
      by simp_all
    show ?thesis
      unfolding unf
    proof (intro conjI allI impI)
      show "length (set_parent_from (Suc i) ts') = length ts"
        using IH(1) len by simp
    next
      fix k assume k: "k < length ts"
      with IH(2) len same show "level (set_parent_from (Suc i) ts' ! k) = level (ts ! k)"
        by simp
      from k IH(2) len same show "t_id (set_parent_from (Suc i) ts' ! k) = t_id (ts ! k)"
        by simp
      from k IH(2) len have "parent_id (set_parent_from (Suc i) ts' ! k) =
          (if k < Suc i then parent_id (ts' ! k)
           else case scan_back ts' (level (ts' ! k)) k of
                  None \<Rightarrow> parent_id (ts' ! k) | Some p \<Rightarrow> Some p)"
        by simp
      with k par sb show "parent_id (set_parent_from (Suc i) ts' ! k) =
          (if k < i then parent_id (ts ! k)
           else case scan_back ts (level (ts ! k)) k of
                  None \<Rightarrow> parent_id (ts ! k) | Some p \<Rightarrow> Some p)"
        by (auto simp: less_Suc_eq split: option.splits)
    qed
  qed
qed

lemma identify_structural_topics_parent:
  assumes "identify_structural_topics text = Inr ts" and i: "i < length ts"
  shows "parent_id (ts ! i) = scan_back ts (level (ts ! i)) i"
    and "distinct (map t_id ts)"
proof -
  let ?lines = "py_split text ''\<newline>''"
  from assms(1) obtain st where
    loop: "lines_loop heading_patterns ?lines \<lparr>topics = [], topic_id = 1, current_page = 1\<rparr>
       (zip [0..<length ?lines] ?lines) = Inr st"
    and ts: "ts = set_parent_relationships (topics st)"
    by (auto simp: identify_structural_topics_def Let_def split: sum.splits)
  have "seg_inv \<lparr>topics = [], topic_id = 1, current_page = 1\<rparr>"
    by (simp add: seg_inv_def)
  from lines_loop_inv [OF this loop] have inv: "seg_inv st" .
  note props = set_parent_from_props [of 0 "topics st", folded set_parent_relationships_def,
      folded ts]
  from props have len: "length ts = length (topics st)"
    by simp
  from props have ids: "map t_id ts = map t_id (topics st)"
    by (intro nth_equalityI) (simp_all add: len)
  with inv distinct_topic_ids show "distinct (map t_id ts)"
    by (simp add: seg_inv_def)
  from inv i len have none: "parent_id (topics st ! i) = None"
    by (simp add: seg_inv_def list_all_length)
  have "scan_back (topics st) (level (topics st ! i)) i = scan_back ts (level (ts ! i)) i"
  proof -
    have "scan_back (topics st) (level (topics st ! i)) i = scan_back ts (level (topics st ! i)) i"
      by (rule scan_back_cong) (use props i len in auto)
    with props i len show ?thesis by simp
  qed
  with props i len none show "parent_id (ts ! i) = scan_back ts (level (ts ! i)) i"
    by (auto split: option.splits)
qed

text \<open>
  Claim C2: in the topic sequence that the heading segmentation returns, the parent of the
  topic at index \<open>i\<close> is the id of the nearest topic before it whose level is strictly
  below its own, and null when no topic before it has a strictly smaller level. The ids
  are pairwise distinct, so every parent that is not null references a topic, found before
  the child, and every topic with that id has a level strictly below the child's.
\<close>

theorem identify_structural_topics_hierarchy:
  assumes "identify_structural_topics text = Inr ts" and "i < length ts"
  shows "(\<forall>j<i. level (ts ! j) < level (ts ! i) \<and>
            (\<forall>k. j < k \<and> k < i \<longrightarrow> \<not> level (ts ! k) < level (ts ! i)) \<longrightarrow>
            parent_id (ts ! i) = Some (t_id (ts ! j))) \<and>
         ((\<forall>j<i. \<not> level (ts ! j) < level (ts ! i)) \<longrightarrow> parent_id (ts ! i) = None) \<and>
         (\<forall>p. parent_id (ts ! i) = Some p \<longrightarrow>
            (\<exists>j<i. t_id (ts ! j) = p \<and> level (ts ! j) < level (ts ! i)) \<and>
            (\<forall>j<length ts. t_id (ts ! j) = p \<longrightarrow> level (ts ! j) < level (ts ! i)))"
proof (intro conjI allI impI)
  note par = identify_structural_topics_parent(1) [OF assms]
  note dist = identify_structural_topics_parent(2) [OF assms]
  {
    fix j assume "j < i" and "level (ts ! j) < level (ts ! i) \<and>
      (\<forall>k. j < k \<and> k < i \<longrightarrow> \<not> level (ts ! k) < level (ts ! i))"
    then have "scan_back ts (level (ts ! i)) i = Some (t_id (ts ! j))"
      unfolding scan_back_Some by blast
    with par show "parent_id (ts ! i) = Some (t_id (ts ! j))"
      by simp
  }
  {
    assume "\<forall>j<i. \<not> level (ts ! j) < level (ts ! i)"
    then have "scan_back ts (level (ts ! i)) i = None"
      unfolding scan_back_None .
    with par show "parent_id (ts ! i) = None"
      by simp
  }
  {
    fix p assume p: "parent_id (ts ! i) = Some p"
    with par have "scan_back ts (level (ts ! i)) i = Some p"
      by simp
    then obtain j where j: "j < i" "level (ts ! j) < level (ts ! i)" "p = t_id (ts ! j)"
      unfolding scan_back_Some by blast
    then show "\<exists>j<i. t_id (ts ! j) = p \<and> level (ts ! j) < level (ts ! i)"
      by blast
    fix j' assume j': "j' < length ts" "t_id (ts ! j') = p"
    from j(1) assms(2) have jl: "j < length ts"
      by simp
    from dist have "(map t_id ts ! j' = map t_id ts ! j) = (j' = j)"
      by (rule nth_eq_iff_index_eq) (use j' jl in auto)
    with j' jl j(3) have "j' = j"
      by simp
    with j(2) show "level (ts ! j') < level (ts ! i)"
      by simp
  }
qed

text \<open>
  The theorem at a text of a chapter, a section and a subsection, for the subsection at
  index 2: the section at index 1 is the nearest topic of a smaller level.
\<close>

theorem identify_structural_topics_hierarchy_witness:
  "level (projr (identify_structural_topics ''Chapter 1: Waves\<newline>1. Sound\<newline>1.1 Pitch'') ! 1) <
     level (projr (identify_structural_topics ''Chapter 1: Waves\<newline>1. Sound\<newline>1.1 Pitch'') ! 2) \<and>
   parent_id (projr (identify_structural_topics ''Chapter 1: Waves\<newline>1. Sound\<newline>1.1 Pitch'') ! 2) =
     Some (t_id (projr (identify_structural_topics ''Chapter 1: Waves\<newline>1. Sound\<newline>1.1 Pitch'') ! 1))"
proof -
  let ?ts = "[\<lparr>t_id = ''topic_1'', title = ''Waves'', t_type = CHAPTER, level = 1,
                parent_id = None, content = [], page_range = (1, 1), keywords = []\<rparr>,
              \<lparr>t_id = ''topic_2'', title = ''Sound'', t_type = SECTION, level = 2,
                parent_id = Some ''topic_1'', content = [], page_range = (1, 1), keywords = []\<rparr>,
              \<lparr>t_id = ''topic_3'', title = ''Pitch'', t_type = SUBSECTION, level = 3,
                parent_id = Some ''topic_2'', content = [], page_range = (1, 1), keywords = []\<rparr>]"
  have ev: "identify_structural_topics ''Chapter 1: Waves\<newline>1. Sound\<newline>1.1 Pitch'' = Inr ?ts"
    by code_simp
  have len: "2 < length ?ts"
    by simp
  have lv: "level (?ts ! 1) < level (?ts ! 2)"
    by simp
  have near: "\<forall>k. 1 < k \<and> k < 2 \<longrightarrow> \<not> level (?ts ! k) < level (?ts ! 2)"
    by auto
  from identify_structural_topics_hierarchy [OF ev len]
  have "\<forall>j<2. level (?ts ! j) < level (?ts ! 2) \<and>
            (\<forall>k. j < k \<and> k < 2 \<longrightarrow> \<not> level (?ts ! k) < level (?ts ! 2)) \<longrightarrow>
            parent_id (?ts ! 2) = Some (t_id (?ts ! j))"
    by (rule conjunct1)
  from this [rule_format, of 1] lv near have "parent_id (?ts ! 2) = Some (t_id (?ts ! 1))"
    by (metis one_less_numeral_iff semiring_norm(76))
  with lv show ?thesis
    unfolding ev sum.sel by blast
qed

end
